theory Spec2Isabelle
  imports Complex_Main "HOL-Library.AList"
begin

section \<open>Go types and values as package reflect shows them\<close>

text \<open>
  The package walks arbitrary Go values through \<^verbatim>\<open>reflect\<close>. The embedding fixes a
  universe of Go types and values that covers every kind the two traversals dispatch on.

  \<^item> \<open>basic\<close> lists the seventeen scalar kinds that both \<^verbatim>\<open>switch v.Kind()\<close> statements
    treat alike; \<open>unsup\<close> lists the three kinds that fall into their \<^verbatim>\<open>default\<close> branch.
  \<^item> By-value nesting (struct fields, array elements) is written inline. A recursive type
    is closed behind a pointer, slice or map through \<open>TNamed n\<close>, which stands for the
    struct type declared under the name \<open>n\<close> in a table of declarations.
  \<^item> Interface types carry no method sets: every concrete type may sit in every interface.
  \<^item> Struct types have no embedded fields, so \<^verbatim>\<open>reflect.VisibleFields\<close> is the list of
    declared fields, each with its name and whether it is exported.
\<close>

datatype basic =
    KBool | KInt | KInt8 | KInt16 | KInt32 | KInt64
  | KUint | KUint8 | KUint16 | KUint32 | KUint64 | KUintptr
  | KFloat32 | KFloat64 | KComplex64 | KComplex128 | KString

datatype unsup = KChan | KFunc | KUnsafePointer

datatype kind =
    Basic basic | Unsup unsup
  | KStruct | KArray | KSlice | KMap | KInterface | KPointer | KInvalid

datatype gotype =
    TBasic basic
  | TUnsup unsup
  | TStruct string "(string \<times> bool \<times> gotype) list"
  | TNamed string
  | TArray nat gotype
  | TSlice gotype
  | TMap gotype gotype
  | TInterface
  | TPointer gotype

fun Kind :: "gotype \<Rightarrow> kind" where
  "Kind (TBasic b) = Basic b"
| "Kind (TUnsup u) = Unsup u"
| "Kind (TStruct n fs) = KStruct"
| "Kind (TNamed n) = KStruct"
| "Kind (TArray n t) = KArray"
| "Kind (TSlice t) = KSlice"
| "Kind (TMap k t) = KMap"
| "Kind TInterface = KInterface"
| "Kind (TPointer t) = KPointer"

text \<open>
  A float is a rational or one of the three special values; negative zero is not told
  apart from zero (the code only compares and converts floats).
\<close>

datatype float = Finite rat | PosInf | NegInf | NaN

datatype scalar =
    SBool bool
  | SInt int
  | SUint nat
  | SFloat float
  | SComplex float float
  | SString string

text \<open>
  A value carries the type information that reflection can read from it. \<open>None\<close> is Go's
  \<^verbatim>\<open>nil\<close> for the four nilable kinds the code tests with \<^verbatim>\<open>IsNil\<close>. A pointer holds the
  address of a heap cell; a map is the list of its entries in the order in which
  \<^verbatim>\<open>MapRange\<close> yields them.

  Slices and maps are references in Go. \<open>VSlice\<close> and \<open>VMap\<close> write a slice or map together
  with its elements, which is what a slice or map is when nothing else refers to its
  storage (the ones \<^verbatim>\<open>marshal\<close> and \<^verbatim>\<open>unmarshal\<close> make are of that sort). \<open>VSliceAt t a\<close>
  and \<open>VMapAt kt et a\<close> are a slice and a map whose storage is the heap cell \<open>a\<close>: an array
  that the slice spans, a table of entries for the map. Any number of values may hold
  such a reference to one cell, among them the elements stored in that cell: a slice or a
  map can contain itself.
\<close>

datatype val =
    VBasic basic scalar
  | VUnsup unsup
  | VStruct string "(string \<times> bool \<times> val) list"
  | VArray gotype "val list"
  | VSlice gotype "val list option"
  | VMap gotype gotype "(val \<times> val) list option"
  | VIface "val option"
  | VPtr gotype "nat option"
  | VSliceAt gotype nat
  | VMapAt gotype gotype nat

text \<open>An \<^verbatim>\<open>any\<close>: \<open>None\<close> is the nil interface, \<open>Some v\<close> holds the concrete value \<open>v\<close>.
  The same type models a \<^verbatim>\<open>reflect.Value\<close> that may be the zero Value.\<close>

type_synonym any = "val option"

type_synonym addr = nat

type_synonym heap = "val list"

fun TypeOf :: "val \<Rightarrow> gotype" where
  "TypeOf (VBasic b s) = TBasic b"
| "TypeOf (VUnsup u) = TUnsup u"
| "TypeOf (VStruct n fs) = TStruct n (map (\<lambda>(f, e, v). (f, e, TypeOf v)) fs)"
| "TypeOf (VArray t vs) = TArray (length vs) t"
| "TypeOf (VSlice t vs) = TSlice t"
| "TypeOf (VMap k t es) = TMap k t"
| "TypeOf (VIface x) = TInterface"
| "TypeOf (VPtr t a) = TPointer t"
| "TypeOf (VSliceAt t a) = TSlice t"
| "TypeOf (VMapAt k t a) = TMap k t"

text \<open>The storage of a slice and of a map held by reference: the elements of the array in the
  cell, the entries of the table in the cell. \<open>None\<close> when the memory has no such cell,
  which a well-formed memory excludes.\<close>

definition cell_elems :: "heap \<Rightarrow> addr \<Rightarrow> val list option" where
  "cell_elems h a =
     (if a < length h then (case h ! a of VArray t vs \<Rightarrow> Some vs | _ \<Rightarrow> None) else None)"

definition cell_entries :: "heap \<Rightarrow> addr \<Rightarrow> (val \<times> val) list option" where
  "cell_entries h a =
     (if a < length h then (case h ! a of VMap kt et (Some es) \<Rightarrow> Some es | _ \<Rightarrow> None)
      else None)"

definition KindOf :: "val \<Rightarrow> kind" where
  "KindOf v = Kind (TypeOf v)"

text \<open>How the two entry points fail: \<open>PanError\<close> is an error value the call returns,
  either directly or raised with \<^verbatim>\<open>pan.Panic\<close> (or \<^verbatim>\<open>Must\<close>) inside the traversal and handed
  back by \<^verbatim>\<open>pan.Recover\<close>; \<open>GoPanic\<close> is a plain \<^verbatim>\<open>panic\<close> of the code, of reflect or of the
  runtime, which is not an error value of the package. Registration returns its errors
  directly.\<close>

datatype error =
    StructPassedAsValue
  | TypeNotSupportedRoot
  | TypeNotSupported gotype
  | TypeNotRegistered gotype
  | NoNameForType gotype
  | TypeAlreadyRegistered gotype
  | TypeNameAlreadyRegistered string
  | DestinationPointerExpected
  | NothingToUnmarshal
  | TypeNameNotRegistered string
  | TargetTypeNotSupported gotype
  | ParseUintFailed string

datatype failure = PanError error | GoPanic string

text \<open>A computation with fuel: \<open>None\<close> when the fuel ran out, otherwise a failure or a
  result.\<close>

type_synonym 'a result = "(failure + 'a) option"

definition bind :: "'a result \<Rightarrow> ('a \<Rightarrow> 'b result) \<Rightarrow> 'b result" where
  "bind r f = (case r of None \<Rightarrow> None | Some (Inl e) \<Rightarrow> Some (Inl e) | Some (Inr a) \<Rightarrow> f a)"

definition ret :: "'a \<Rightarrow> 'a result" where
  "ret a = Some (Inr a)"

definition throw :: "failure \<Rightarrow> 'a result" where
  "throw e = Some (Inl e)"

section \<open>The type registry\<close>

record Types =
  typeNames :: "gotype \<rightharpoonup> string"
  nameTypes :: "string \<rightharpoonup> gotype"

definition NewTypes :: Types where
  "NewTypes = \<lparr> typeNames = Map.empty, nameTypes = Map.empty \<rparr>"

definition isMapKeyTypeSupported :: "gotype \<Rightarrow> bool" where
  "isMapKeyTypeSupported t =
     (case Kind t of
        Basic b \<Rightarrow> b \<in> {KInt, KInt8, KInt16, KInt32, KInt64,
                         KUint, KUint8, KUint16, KUint32, KUint64, KUintptr, KString}
      | _ \<Rightarrow> False)"

fun isTypeSupported :: "gotype \<Rightarrow> bool" where
  "isTypeSupported (TPointer t) = isTypeSupported t"
| "isTypeSupported (TMap k t) = isMapKeyTypeSupported k"
| "isTypeSupported (TUnsup u) = False"
| "isTypeSupported t = True"

definition register :: "Types \<Rightarrow> string \<Rightarrow> gotype \<Rightarrow> Types \<times> error option" where
  "register ts name t =
     (if name = [] then (ts, Some (NoNameForType t))
      else if \<not> isTypeSupported t then (ts, Some (TypeNotSupported t))
      else if typeNames ts t \<noteq> None then (ts, Some (TypeAlreadyRegistered t))
      else if nameTypes ts name \<noteq> None then (ts, Some (TypeNameAlreadyRegistered name))
      else (ts\<lparr> typeNames := (typeNames ts)(t \<mapsto> name),
                nameTypes := (nameTypes ts)(name \<mapsto> t) \<rparr>, None))"

text \<open>\<^verbatim>\<open>errors.Join\<close>: nil when there is nothing to join, otherwise one error wrapping the
  list in order.\<close>

definition Join :: "error list \<Rightarrow> error list option" where
  "Join errs = (if errs = [] then None else Some errs)"

text \<open>The loop of \<^verbatim>\<open>Register\<close>, with the registry and the slice \<^verbatim>\<open>errs\<close> as its state.\<close>

fun Register_loop :: "Types \<Rightarrow> error list \<Rightarrow> (string \<times> gotype) list \<Rightarrow> Types \<times> error list" where
  "Register_loop ts errs [] = (ts, errs)"
| "Register_loop ts errs ((name, t) # args) =
     (case register ts name t of
        (ts', Some err) \<Rightarrow> Register_loop ts' (errs @ [err]) args
      | (ts', None) \<Rightarrow> Register_loop ts' errs args)"

definition Register :: "Types \<Rightarrow> (string \<times> gotype) list \<Rightarrow> Types \<times> error list option" where
  "Register ts args = (case Register_loop ts [] args of (ts', errs) \<Rightarrow> (ts', Join errs))"

section \<open>Marshal\<close>

text \<open>
  The state of one \<^verbatim>\<open>Marshal\<close> call. \<open>refs\<close> maps the address a pointer holds to the slot
  reserved for it; \<open>objects\<close> is the list under construction.
\<close>

record marshaler =
  strict :: bool
  types :: Types
  refs :: "addr \<rightharpoonup> nat"
  objects :: "any list"

text \<open>What \<^verbatim>\<open>marshal\<close> returns, \<^verbatim>\<open>(any, bool)\<close>, together with the state it leaves.\<close>

type_synonym marshaled = "(any \<times> bool) \<times> marshaler"

text \<open>\<^verbatim>\<open>if init { m.objects = append(m.objects, x) }\<close>\<close>

definition append_init :: "bool \<Rightarrow> any \<Rightarrow> marshaler \<Rightarrow> marshaler" where
  "append_init init x m = (if init then m\<lparr> objects := objects m @ [x] \<rparr> else m)"

text \<open>The encoded forms: a string key, a slot index (a Go \<^verbatim>\<open>int\<close>), a
  \<^verbatim>\<open>map[string]any\<close> and a \<^verbatim>\<open>[]any\<close>.\<close>

definition StringKey :: "string \<Rightarrow> val" where
  "StringKey name = VBasic KString (SString name)"

definition Index :: "nat \<Rightarrow> val" where
  "Index i = VBasic KInt (SInt (int i))"

definition StringMap :: "(val \<times> val) list \<Rightarrow> val" where
  "StringMap es = VMap (TBasic KString) TInterface (Some es)"

definition AnySlice :: "val list \<Rightarrow> val" where
  "AnySlice xs = VSlice TInterface (Some xs)"

text \<open>The loop over the visible fields of a struct: an exported field whose value
  marshals to a non-nil \<open>x\<close> is stored under its name.\<close>

fun marshal_fields ::
  "(marshaler \<Rightarrow> val \<Rightarrow> bool \<Rightarrow> marshaled result) \<Rightarrow> marshaler \<Rightarrow>
   (string \<times> bool \<times> val) list \<Rightarrow> (val \<times> val) list \<Rightarrow> ((val \<times> val) list \<times> marshaler) result" where
  "marshal_fields rec m [] marshaled = ret (marshaled, m)"
| "marshal_fields rec m ((name, exported, v) # fs) marshaled =
     (if exported then
        bind (rec m v False) (\<lambda>((x, okay), m').
          marshal_fields rec m' fs
            (if okay \<and> x \<noteq> None then AList.update (StringKey name) (VIface x) marshaled
             else marshaled))
      else marshal_fields rec m fs marshaled)"

text \<open>The loop over the elements of an array or slice, at index \<open>i\<close>. The result \<open>None\<close>
  is the early \<^verbatim>\<open>return nil, false\<close>.\<close>

fun marshal_elems ::
  "(marshaler \<Rightarrow> val \<Rightarrow> bool \<Rightarrow> marshaled result) \<Rightarrow> marshaler \<Rightarrow>
   val list \<Rightarrow> nat \<Rightarrow> val list \<Rightarrow> (val list option \<times> marshaler) result" where
  "marshal_elems rec m [] i marshaled = ret (Some marshaled, m)"
| "marshal_elems rec m (v # vs) i marshaled =
     bind (rec m v False) (\<lambda>((x, okay), m').
       if \<not> okay then
         (if i > 0 then throw (GoPanic ''failed to marshal secondary slice element'')
          else ret (None, m'))
       else marshal_elems rec m' vs (Suc i) (marshaled @ [VIface x]))"

text \<open>The loop over the entries of a map.\<close>

fun marshal_entries ::
  "(marshaler \<Rightarrow> val \<Rightarrow> bool \<Rightarrow> marshaled result) \<Rightarrow> marshaler \<Rightarrow>
   (val \<times> val) list \<Rightarrow> (val \<times> val) list \<Rightarrow> ((val \<times> val) list \<times> marshaler) result" where
  "marshal_entries rec m [] marshaled = ret (marshaled, m)"
| "marshal_entries rec m ((k, v) # es) marshaled =
     bind (rec m v False) (\<lambda>((x, okay), m').
       marshal_entries rec m' es
         (if okay then AList.update k (VIface x) marshaled else marshaled))"

text \<open>The array and slice case.\<close>

definition marshal_seq ::
  "(marshaler \<Rightarrow> val \<Rightarrow> bool \<Rightarrow> marshaled result) \<Rightarrow> marshaler \<Rightarrow>
   val list \<Rightarrow> bool \<Rightarrow> marshaled result" where
  "marshal_seq rec m vs init =
     bind (marshal_elems rec m vs 0 []) (\<lambda>(r, m').
       case r of
         None \<Rightarrow> ret ((None, False), m')
       | Some marshaled \<Rightarrow>
           ret ((Some (AnySlice marshaled), True), append_init init (Some (AnySlice marshaled)) m'))"

text \<open>The map case, on the entries \<open>es\<close> of a map of type \<open>TMap kt et\<close>.\<close>

definition marshal_map ::
  "(marshaler \<Rightarrow> val \<Rightarrow> bool \<Rightarrow> marshaled result) \<Rightarrow> marshaler \<Rightarrow>
   gotype \<Rightarrow> gotype \<Rightarrow> (val \<times> val) list \<Rightarrow> bool \<Rightarrow> marshaled result" where
  "marshal_map rec m kt et es init =
     (if \<not> isMapKeyTypeSupported kt then
        (if strict m then throw (PanError (TypeNotSupported (TMap kt et)))
         else ret ((None, False), m))
      else
        bind (marshal_entries rec m es []) (\<lambda>(marshaled, m').
          ret ((Some (VMap kt TInterface (Some marshaled)), True),
               append_init init (Some (VMap kt TInterface (Some marshaled))) m')))"

text \<open>
  The body of \<^verbatim>\<open>marshaler.marshal\<close>, one equation for each way through its two switches;
  \<open>rec\<close> is the recursive call and \<open>h\<close> the memory the pointers of the value point into.
  A slice or map held by reference takes the same branch as one written with its
  elements, on the elements found in its cell: the code looks at no identity of a slice or
  map.
\<close>

fun marshal_body ::
  "(marshaler \<Rightarrow> val \<Rightarrow> bool \<Rightarrow> marshaled result) \<Rightarrow> heap \<Rightarrow> marshaler \<Rightarrow>
   val \<Rightarrow> bool \<Rightarrow> marshaled result" where
  "marshal_body rec h m (VIface None) init = ret ((None, True), append_init init None m)"
| "marshal_body rec h m (VMap kt et None) init = ret ((None, True), append_init init None m)"
| "marshal_body rec h m (VPtr t None) init = ret ((None, True), append_init init None m)"
| "marshal_body rec h m (VSlice t None) init = ret ((None, True), append_init init None m)"
| "marshal_body rec h m (VBasic b s) init =
     ret ((Some (VBasic b s), True), append_init init (Some (VBasic b s)) m)"
| "marshal_body rec h m (VStruct n fs) init =
     bind (marshal_fields rec m fs []) (\<lambda>(marshaled, m').
       ret ((Some (StringMap marshaled), True), append_init init (Some (StringMap marshaled)) m'))"
| "marshal_body rec h m (VArray t vs) init = marshal_seq rec m vs init"
| "marshal_body rec h m (VSlice t (Some vs)) init = marshal_seq rec m vs init"
| "marshal_body rec h m (VMap kt et (Some es)) init =
     (if \<not> isMapKeyTypeSupported kt then
        (if strict m then throw (PanError (TypeNotSupported (TMap kt et)))
         else ret ((None, False), m))
      else
        bind (marshal_entries rec m es []) (\<lambda>(marshaled, m').
          ret ((Some (VMap kt TInterface (Some marshaled)), True),
               append_init init (Some (VMap kt TInterface (Some marshaled))) m')))"
| "marshal_body rec h m (VIface (Some v)) init =
     (case typeNames (types m) (TypeOf v) of
        None \<Rightarrow> throw (PanError (TypeNotRegistered (TypeOf v)))
      | Some name \<Rightarrow>
          bind (rec m v False) (\<lambda>((x, okay), m').
            if \<not> okay then throw (GoPanic ''failed to marshal registered type'')
            else ret ((Some (StringMap [(StringKey name, VIface x)]), True),
                      append_init init (Some (StringMap [(StringKey name, VIface x)])) m')))"
| "marshal_body rec h m (VPtr t (Some ptr)) init =
     (case refs m ptr of
        Some index \<Rightarrow> ret ((Some (Index index), True), m)
      | None \<Rightarrow>
          (let index = length (objects m);
               m1 = m\<lparr> refs := (refs m)(ptr \<mapsto> index), objects := objects m @ [None] \<rparr>
           in if ptr \<ge> length h then throw (GoPanic ''invalid memory address'')
              else
                bind (rec m1 (h ! ptr) False) (\<lambda>((x, okay), m2).
                  if okay then
                    (if index < length (objects m2) then
                       ret ((Some (Index index), True), m2\<lparr> objects := (objects m2)[index := x] \<rparr>)
                     else throw (GoPanic ''index out of range''))
                  else ret ((None, False), m2\<lparr> objects := take index (objects m2) \<rparr>))))"
| "marshal_body rec h m (VSliceAt t a) init =
     (case cell_elems h a of
        None \<Rightarrow> throw (GoPanic ''invalid memory address'')
      | Some vs \<Rightarrow> marshal_seq rec m vs init)"
| "marshal_body rec h m (VMapAt kt et a) init =
     (case cell_entries h a of
        None \<Rightarrow> throw (GoPanic ''invalid memory address'')
      | Some es \<Rightarrow> marshal_map rec m kt et es init)"
| "marshal_body rec h m (VUnsup u) init =
     (if strict m then throw (PanError (TypeNotSupported (TUnsup u)))
      else ret ((None, False), m))"

text \<open>\<^verbatim>\<open>marshaler.marshal\<close> with fuel for the depth of the recursion.\<close>

fun marshal :: "nat \<Rightarrow> heap \<Rightarrow> marshaler \<Rightarrow> val \<Rightarrow> bool \<Rightarrow> marshaled result" where
  "marshal 0 h m v init = None"
| "marshal (Suc n) h m v init = marshal_body (marshal n h) h m v init"

text \<open>
  \<^verbatim>\<open>Marshal\<close>, and the marshaler it starts from. \<open>x\<close> is the \<^verbatim>\<open>any\<close> the caller passes; for the nil interface
  \<^verbatim>\<open>reflect.ValueOf\<close> gives the zero Value, whose kind is Invalid: the \<^verbatim>\<open>default\<close> branch
  then calls \<^verbatim>\<open>v.Type()\<close> for the error message in strict mode, which panics, and returns
  \<^verbatim>\<open>nil, false\<close> otherwise.
\<close>

definition newMarshaler :: "Types \<Rightarrow> bool \<Rightarrow> marshaler" where
  "newMarshaler tys ignoreUnsupportedTypes =
     \<lparr> strict = \<not> ignoreUnsupportedTypes, types = tys, refs = Map.empty, objects = [] \<rparr>"

definition Marshal :: "nat \<Rightarrow> heap \<Rightarrow> any \<Rightarrow> Types \<Rightarrow> bool \<Rightarrow> any list result" where
  "Marshal n h x tys ignoreUnsupportedTypes =
     (case x of
        None \<Rightarrow>
          (if ignoreUnsupportedTypes then throw (PanError TypeNotSupportedRoot)
           else throw (GoPanic ''reflect: call of reflect.Value.Type on zero Value''))
      | Some v \<Rightarrow>
          if KindOf v = KStruct then throw (PanError StructPassedAsValue)
          else
            bind (marshal n h (newMarshaler tys ignoreUnsupportedTypes) v True)
              (\<lambda>((x, okay), m). if \<not> okay then throw (PanError TypeNotSupportedRoot)
                                else ret (objects m)))"

section \<open>Unmarshal\<close>

text \<open>
  What the decoder takes from outside the package: the declarations of the named struct
  types (the fields \<^verbatim>\<open>reflect\<close> reports for \<open>TNamed n\<close>), and \<^verbatim>\<open>strconv.ParseUint\<close> with base 0
  and 64 bits, \<open>None\<close> being its error.
\<close>

record env =
  decls :: "string \<Rightarrow> (string \<times> bool \<times> gotype) list"
  ParseUint :: "string \<Rightarrow> nat option"

definition Resolve :: "env \<Rightarrow> gotype \<Rightarrow> gotype" where
  "Resolve E t = (case t of TNamed n \<Rightarrow> TStruct n (decls E n) | _ \<Rightarrow> t)"

definition zero_scalar :: "basic \<Rightarrow> scalar" where
  "zero_scalar b =
     (if b = KBool then SBool False
      else if b \<in> {KInt, KInt8, KInt16, KInt32, KInt64} then SInt 0
      else if b \<in> {KUint, KUint8, KUint16, KUint32, KUint64, KUintptr} then SUint 0
      else if b \<in> {KFloat32, KFloat64} then SFloat (Finite 0)
      else if b \<in> {KComplex64, KComplex128} then SComplex (Finite 0) (Finite 0)
      else SString [])"

text \<open>The zero value of a type, as \<^verbatim>\<open>reflect.New\<close>, \<^verbatim>\<open>reflect.Zero\<close> and \<^verbatim>\<open>reflect.MakeSlice\<close>
  produce it. A by-value struct type is written inline, so \<open>TNamed\<close> is not met here
  once the type has been resolved.\<close>

fun Zero :: "gotype \<Rightarrow> val" where
  "Zero (TBasic b) = VBasic b (zero_scalar b)"
| "Zero (TUnsup u) = VUnsup u"
| "Zero (TStruct n fs) = VStruct n (map (\<lambda>(f, e, t). (f, e, Zero t)) fs)"
| "Zero (TNamed n) = VStruct n []"
| "Zero (TArray k t) = VArray t (replicate k (Zero t))"
| "Zero (TSlice t) = VSlice t None"
| "Zero (TMap k t) = VMap k t None"
| "Zero TInterface = VIface None"
| "Zero (TPointer t) = VPtr t None"

text \<open>The zero value of a type that stands behind a pointer, slice, map or registry
  entry.\<close>

definition ZeroOf :: "env \<Rightarrow> gotype \<Rightarrow> val" where
  "ZeroOf E t = Zero (Resolve E t)"

text \<open>
  The state of one \<^verbatim>\<open>Unmarshal\<close> call: the registry, the list being decoded and the memo
  array \<^verbatim>\<open>objects\<close> of the source (here \<open>utypes\<close>, \<open>sources\<close>, \<open>uobjects\<close>), and the memory
  \<open>mem\<close> in which \<^verbatim>\<open>reflect.New\<close> allocates the cells pointers point to.
\<close>

record unmarshaler =
  utypes :: Types
  sources :: "any list"
  uobjects :: "any list"
  mem :: heap

text \<open>
  \<^verbatim>\<open>unmarshal(src, dest)\<close> only ever writes through \<open>dest\<close>, and every location it writes
  belongs to the call that writes it. The embedding therefore passes the type of \<open>dest\<close>
  and the value \<open>dest\<close> holds on entry, and returns the value it holds on exit.
\<close>

type_synonym unmarshaled = "unmarshaler \<times> val"

text \<open>\<^verbatim>\<open>v.Elem()\<close> of an element of a \<^verbatim>\<open>[]any\<close> or \<^verbatim>\<open>map[K]any\<close>.\<close>

fun ElemOf :: "val \<Rightarrow> any" where
  "ElemOf (VIface x) = x"
| "ElemOf v = Some v"

text \<open>The three checks on the type of a source that must be a map, and the two on one
  that must be a slice; each failed check is a \<^verbatim>\<open>panic(src)\<close>. \<^verbatim>\<open>src.Type()\<close> itself
  panics on the zero Value. \<open>h\<close> is the memory in which a source held by reference has its
  storage.\<close>

definition src_map ::
  "heap \<Rightarrow> any \<Rightarrow> (gotype \<Rightarrow> bool) \<Rightarrow> (gotype \<times> (val \<times> val) list option) result" where
  "src_map h src key_ok =
     (case src of
        None \<Rightarrow> throw (GoPanic ''reflect: call of reflect.Value.Type on zero Value'')
      | Some (VMap kt et es) \<Rightarrow>
          if \<not> key_ok kt then throw (GoPanic ''panic(src)'')
          else if Kind et \<noteq> KInterface then throw (GoPanic ''panic(src)'')
          else ret (kt, es)
      | Some (VMapAt kt et a) \<Rightarrow>
          if \<not> key_ok kt then throw (GoPanic ''panic(src)'')
          else if Kind et \<noteq> KInterface then throw (GoPanic ''panic(src)'')
          else (case cell_entries h a of
                  None \<Rightarrow> throw (GoPanic ''invalid memory address'')
                | Some es \<Rightarrow> ret (kt, Some es))
      | Some _ \<Rightarrow> throw (GoPanic ''panic(src)''))"

definition src_slice :: "heap \<Rightarrow> any \<Rightarrow> val list result" where
  "src_slice h src =
     (case src of
        None \<Rightarrow> throw (GoPanic ''reflect: call of reflect.Value.Type on zero Value'')
      | Some (VSlice et xs) \<Rightarrow>
          if Kind et \<noteq> KInterface then throw (GoPanic ''panic(src)'')
          else ret (case xs of None \<Rightarrow> [] | Some ys \<Rightarrow> ys)
      | Some (VSliceAt et a) \<Rightarrow>
          if Kind et \<noteq> KInterface then throw (GoPanic ''panic(src)'')
          else (case cell_elems h a of
                  None \<Rightarrow> throw (GoPanic ''invalid memory address'')
                | Some ys \<Rightarrow> ret ys)
      | Some _ \<Rightarrow> throw (GoPanic ''panic(src)''))"

text \<open>\<^verbatim>\<open>dest.Set(x)\<close> for a value \<open>x\<close> that must be assignable to the type of \<open>dest\<close>.\<close>

definition Set_checked :: "unmarshaler \<Rightarrow> gotype \<Rightarrow> any \<Rightarrow> unmarshaled result" where
  "Set_checked u t x =
     (case x of
        None \<Rightarrow> throw (GoPanic ''reflect: call of reflect.Value.Set on zero Value'')
      | Some v \<Rightarrow>
          if TypeOf v = t then ret (u, v)
          else throw (GoPanic ''reflect.Set: value is not assignable to type''))"

text \<open>The loop over the visible fields of a struct destination; \<open>olds\<close> are the values
  the fields hold on entry.\<close>

fun unmarshal_fields ::
  "(unmarshaler \<Rightarrow> any \<Rightarrow> gotype \<Rightarrow> val \<Rightarrow> unmarshaled result) \<Rightarrow> unmarshaler \<Rightarrow>
   (val \<times> val) list \<Rightarrow> (string \<times> bool \<times> gotype) list \<Rightarrow> val list \<Rightarrow>
   (string \<times> bool \<times> val) list \<Rightarrow> (unmarshaler \<times> (string \<times> bool \<times> val) list) result" where
  "unmarshal_fields rec u es [] olds acc = ret (u, acc)"
| "unmarshal_fields rec u es ((name, exported, t) # fs) olds acc =
     (let old = (case olds of [] \<Rightarrow> Zero t | v # _ \<Rightarrow> v) in
      case (if exported then map_of es (StringKey name) else None) of
        Some v \<Rightarrow>
          bind (rec u (ElemOf v) t old) (\<lambda>(u', new).
            unmarshal_fields rec u' es fs (tl olds) (acc @ [(name, exported, new)]))
      | None \<Rightarrow> unmarshal_fields rec u es fs (tl olds) (acc @ [(name, exported, old)]))"

definition struct_fields :: "val \<Rightarrow> val list" where
  "struct_fields old = (case old of VStruct n fs \<Rightarrow> map (\<lambda>(f, e, v). v) fs | _ \<Rightarrow> [])"

text \<open>The loop over the elements of the source slice, each with the value \<open>old\<close> its
  destination \<^verbatim>\<open>dest.Index(i)\<close> holds; a nil element leaves its destination as it is.\<close>

fun unmarshal_elems ::
  "(unmarshaler \<Rightarrow> any \<Rightarrow> gotype \<Rightarrow> val \<Rightarrow> unmarshaled result) \<Rightarrow> unmarshaler \<Rightarrow>
   gotype \<Rightarrow> val list \<Rightarrow> val list \<Rightarrow> val list \<Rightarrow> (unmarshaler \<times> val list) result" where
  "unmarshal_elems rec u t [] olds acc = ret (u, acc)"
| "unmarshal_elems rec u t (x # xs) [] acc = ret (u, acc)"
| "unmarshal_elems rec u t (x # xs) (old # olds) acc =
     (case ElemOf x of
        None \<Rightarrow> unmarshal_elems rec u t xs olds (acc @ [old])
      | Some v \<Rightarrow>
          bind (rec u (Some v) t old) (\<lambda>(u', new).
            unmarshal_elems rec u' t xs olds (acc @ [new])))"

text \<open>The loop over the entries of the source map; \<open>kt\<close> and \<open>et\<close> are the key and element
  types of the destination, \<open>skt\<close> the key type of the source.\<close>

fun unmarshal_entries ::
  "(unmarshaler \<Rightarrow> any \<Rightarrow> gotype \<Rightarrow> val \<Rightarrow> unmarshaled result) \<Rightarrow> env \<Rightarrow> unmarshaler \<Rightarrow>
   gotype \<Rightarrow> gotype \<Rightarrow> gotype \<Rightarrow> (val \<times> val) list \<Rightarrow> (val \<times> val) list \<Rightarrow>
   (unmarshaler \<times> (val \<times> val) list) result" where
  "unmarshal_entries rec E u skt kt et [] acc = ret (u, acc)"
| "unmarshal_entries rec E u skt kt et ((k, v) # es) acc =
     (case ElemOf v of
        None \<Rightarrow>
          if skt \<noteq> kt then throw (GoPanic ''reflect.Value.SetMapIndex: key is not assignable'')
          else unmarshal_entries rec E u skt kt et es (AList.update k (ZeroOf E et) acc)
      | Some x \<Rightarrow>
          bind (rec u (Some x) et (ZeroOf E et)) (\<lambda>(u', new).
            if skt \<noteq> kt then throw (GoPanic ''reflect.Value.SetMapIndex: key is not assignable'')
            else unmarshal_entries rec E u' skt kt et es (AList.update k new acc)))"

text \<open>
  The conversions of the float case. Outside the range of \<^verbatim>\<open>uint64\<close> Go leaves the result
  of the conversion to the implementation; \<open>2 ^ 63\<close> is what amd64 gives. A float is compared
  as IEEE does: NaN differs from everything.
\<close>

definition uint64_of_float :: "float \<Rightarrow> nat" where
  "uint64_of_float f =
     (case f of
        Finite q \<Rightarrow> if 0 \<le> q \<and> q < 2 ^ 64 then nat \<lfloor>q\<rfloor> else 2 ^ 63
      | _ \<Rightarrow> 2 ^ 63)"

definition float_of_uint64 :: "nat \<Rightarrow> float" where
  "float_of_uint64 n = Finite (of_nat n)"

definition float_neg :: "float \<Rightarrow> bool" where
  "float_neg f = (case f of Finite q \<Rightarrow> q < 0 | NegInf \<Rightarrow> True | _ \<Rightarrow> False)"

definition float_neq :: "float \<Rightarrow> float \<Rightarrow> bool" where
  "float_neq f g = (f = NaN \<or> g = NaN \<or> f \<noteq> g)"

text \<open>The \<^verbatim>\<open>switch src.Kind()\<close> of the pointer case: the slot index a source stands for.\<close>

definition ref_index :: "env \<Rightarrow> any \<Rightarrow> nat result" where
  "ref_index E src =
     (case src of
        Some (VBasic b (SUint n)) \<Rightarrow>
          if b \<in> {KUint, KUint8, KUint16, KUint32, KUint64, KUintptr} then ret n
          else throw (GoPanic ''panic(src)'')
      | Some (VBasic b (SInt i)) \<Rightarrow>
          if b \<in> {KInt, KInt8, KInt16, KInt32, KInt64} then
            (if i < 0 then throw (GoPanic ''panic(src)'') else ret (nat i))
          else throw (GoPanic ''panic(src)'')
      | Some (VBasic b (SFloat f)) \<Rightarrow>
          if b \<in> {KFloat32, KFloat64} then
            (if float_neg f \<or> float_neq f (float_of_uint64 (uint64_of_float f))
             then throw (GoPanic ''panic(src)'')
             else ret (uint64_of_float f))
          else throw (GoPanic ''panic(src)'')
      | Some (VBasic b (SString s)) \<Rightarrow>
          if b = KString then
            (case ParseUint E s of
               None \<Rightarrow> throw (PanError (ParseUintFailed s))
             | Some n \<Rightarrow> ret n)
          else throw (GoPanic ''panic(src)'')
      | Some (VIface None) \<Rightarrow>
          throw (GoPanic ''reflect.Set: value is not assignable to type'')
      | _ \<Rightarrow> throw (GoPanic ''panic(src)''))"

text \<open>The interface case reads a source map of length one: its only key, as a string, and
  the value under it.\<close>

definition sole_entry :: "(val \<times> val) list option \<Rightarrow> (string \<times> val) option" where
  "sole_entry es =
     (case es of
        Some [(VBasic b (SString typeName), v)] \<Rightarrow> Some (typeName, v)
      | _ \<Rightarrow> None)"

text \<open>The struct case.\<close>

definition unmarshal_struct ::
  "(unmarshaler \<Rightarrow> any \<Rightarrow> gotype \<Rightarrow> val \<Rightarrow> unmarshaled result) \<Rightarrow> unmarshaler \<Rightarrow>
   any \<Rightarrow> string \<Rightarrow> (string \<times> bool \<times> gotype) list \<Rightarrow> val \<Rightarrow> unmarshaled result" where
  "unmarshal_struct rec u src n fs old =
     bind (src_map (mem u) src (\<lambda>kt. Kind kt = Basic KString)) (\<lambda>(kt, es).
       bind (unmarshal_fields rec u (case es of None \<Rightarrow> [] | Some xs \<Rightarrow> xs) fs
               (struct_fields old) [])
         (\<lambda>(u', new). ret (u', VStruct n new)))"

text \<open>
  The body of \<^verbatim>\<open>unmarshaler.unmarshal\<close>, one equation for each kind of destination;
  \<open>rec\<close> is the recursive call, \<open>t\<close> the type of \<open>dest\<close> and \<open>old\<close> the value it holds.
\<close>

fun unmarshal_body ::
  "(unmarshaler \<Rightarrow> any \<Rightarrow> gotype \<Rightarrow> val \<Rightarrow> unmarshaled result) \<Rightarrow> env \<Rightarrow> unmarshaler \<Rightarrow>
   any \<Rightarrow> gotype \<Rightarrow> val \<Rightarrow> unmarshaled result" where
  "unmarshal_body rec E u src (TBasic b) old = Set_checked u (TBasic b) src"
| "unmarshal_body rec E u src (TStruct n fs) old = unmarshal_struct rec u src n fs old"
| "unmarshal_body rec E u src (TNamed n) old = unmarshal_struct rec u src n (decls E n) old"
| "unmarshal_body rec E u src (TArray k t) old =
     bind (src_slice (mem u) src) (\<lambda>xs.
       if length xs \<noteq> k then throw (GoPanic ''panic(src)'')
       else
         bind (unmarshal_elems rec u t xs
                 (case old of VArray t' vs \<Rightarrow> vs | _ \<Rightarrow> replicate k (ZeroOf E t)) [])
           (\<lambda>(u', new). ret (u', VArray t new)))"
| "unmarshal_body rec E u src (TSlice t) old =
     bind (src_slice (mem u) src) (\<lambda>xs.
       bind (unmarshal_elems rec u t xs (replicate (length xs) (ZeroOf E t)) [])
         (\<lambda>(u', new). ret (u', VSlice t (Some new))))"
| "unmarshal_body rec E u src (TMap kt et) old =
     bind (src_map (mem u) src (\<lambda>skt. Kind skt = Kind kt)) (\<lambda>(skt, es).
       case es of
         None \<Rightarrow> ret (u, old)
       | Some xs \<Rightarrow>
           bind (unmarshal_entries rec E u skt kt et xs [])
             (\<lambda>(u', new). ret (u', VMap kt et (Some new))))"
| "unmarshal_body rec E u src TInterface old =
     bind (src_map (mem u) src (\<lambda>kt. Kind kt = Basic KString)) (\<lambda>(kt, es).
       case sole_entry es of
         None \<Rightarrow> throw (GoPanic ''panic(src)'')
       | Some (typeName, v) \<Rightarrow>
           (case nameTypes (utypes u) typeName of
              None \<Rightarrow> throw (PanError (TypeNameNotRegistered typeName))
            | Some t \<Rightarrow>
                bind (rec u (ElemOf v) t (ZeroOf E t))
                  (\<lambda>(u', new). ret (u', VIface (Some new)))))"
| "unmarshal_body rec E u src (TPointer t) old =
     bind (ref_index E src) (\<lambda>index.
       if index \<ge> length (uobjects u) then throw (GoPanic ''panic(src)'')
       else
         case uobjects u ! index of
           Some x \<Rightarrow> Set_checked u (TPointer t) (Some x)
         | None \<Rightarrow>
             (let a = length (mem u);
                  ptr = VPtr t (Some a);
                  u1 = u\<lparr> uobjects := (uobjects u)[index := Some ptr],
                          mem := mem u @ [ZeroOf E t] \<rparr>
              in if index \<ge> length (sources u) then throw (GoPanic ''index out of range'')
                 else
                   bind (rec u1 (sources u ! index) t (ZeroOf E t))
                     (\<lambda>(u2, new). ret (u2\<lparr> mem := (mem u2)[a := new] \<rparr>, ptr))))"
| "unmarshal_body rec E u src (TUnsup k) old =
     throw (PanError (TargetTypeNotSupported (TUnsup k)))"

text \<open>\<^verbatim>\<open>unmarshaler.unmarshal\<close> with fuel for the depth of the recursion.\<close>

fun unmarshal ::
  "nat \<Rightarrow> env \<Rightarrow> unmarshaler \<Rightarrow> any \<Rightarrow> gotype \<Rightarrow> val \<Rightarrow> unmarshaled result" where
  "unmarshal 0 E u src t old = None"
| "unmarshal (Suc n) E u src t old = unmarshal_body (unmarshal n E) E u src t old"

text \<open>
  \<^verbatim>\<open>Unmarshal\<close>, and the unmarshaler it starts from, with \<^verbatim>\<open>objects[0] = ptr\<close>. \<open>h\<close> is the
  caller's memory, in which \<open>ptr\<close> points to the destination; the
  result is the memory after the call. \<^verbatim>\<open>reflect.TypeOf(nil)\<close> is a nil \<^verbatim>\<open>Type\<close>, whose
  \<^verbatim>\<open>Kind\<close> cannot be called; the \<^verbatim>\<open>Elem\<close> of a nil pointer is the zero Value, on which the
  \<^verbatim>\<open>default\<close> branch calls \<^verbatim>\<open>dest.Type()\<close>.
\<close>

definition newUnmarshaler :: "Types \<Rightarrow> any list \<Rightarrow> val \<Rightarrow> heap \<Rightarrow> unmarshaler" where
  "newUnmarshaler tys srcs p h =
     \<lparr> utypes = tys, sources = srcs,
       uobjects = (replicate (length srcs) None)[0 := Some p], mem = h \<rparr>"

definition Unmarshal :: "nat \<Rightarrow> env \<Rightarrow> heap \<Rightarrow> any list \<Rightarrow> any \<Rightarrow> Types \<Rightarrow> heap result" where
  "Unmarshal n E h srcs ptr tys =
     (case ptr of
        None \<Rightarrow> throw (GoPanic ''invalid memory address or nil pointer dereference'')
      | Some p \<Rightarrow>
          if KindOf p \<noteq> KPointer then throw (PanError DestinationPointerExpected)
          else if length srcs = 0 then throw (PanError NothingToUnmarshal)
          else
            (case p of
               VPtr t (Some a) \<Rightarrow>
                 if a \<ge> length h then throw (GoPanic ''invalid memory address'')
                 else
                   bind (unmarshal n E (newUnmarshaler tys srcs p h) (srcs ! 0) t (h ! a))
                     (\<lambda>(u, new). ret ((mem u)[a := new]))
             | _ \<Rightarrow> throw (GoPanic ''reflect: call of reflect.Value.Type on zero Value'')))"

section \<open>Functions used to state the properties\<close>

text \<open>The outcome of each registration of a batch, in order, each made on the registry
  the registrations before it have left.\<close>

fun register_each :: "Types \<Rightarrow> (string \<times> gotype) list \<Rightarrow> error option list" where
  "register_each ts [] = []"
| "register_each ts ((name, t) # args) =
     snd (register ts name t) # register_each (fst (register ts name t)) args"

text \<open>The first three statements of the pointer case, which reserve the next free slot
  for the address \<open>ptr\<close>, and what the case does with the result of marshalling the
  target.\<close>

definition reserve :: "marshaler \<Rightarrow> addr \<Rightarrow> marshaler" where
  "reserve m ptr = m\<lparr> refs := (refs m)(ptr \<mapsto> length (objects m)), objects := objects m @ [None] \<rparr>"

definition complete :: "nat \<Rightarrow> marshaled \<Rightarrow> marshaled result" where
  "complete index = (\<lambda>((x, okay), m2).
     if okay then
       (if index < length (objects m2) then
          ret ((Some (Index index), True), m2\<lparr> objects := (objects m2)[index := x] \<rparr>)
        else throw (GoPanic ''index out of range''))
     else ret ((None, False), m2\<lparr> objects := take index (objects m2) \<rparr>))"

text \<open>How a call of \<^verbatim>\<open>marshal\<close> may change the state: the mode and the registry stay, no
  entry of \<open>refs\<close> is removed or changed, and the slots that were in the list stay as they
  are.\<close>

definition extends :: "marshaler \<Rightarrow> marshaler \<Rightarrow> bool" where
  "extends m m' =
     (strict m' = strict m \<and> types m' = types m \<and> refs m \<subseteq>\<^sub>m refs m'
      \<and> length (objects m) \<le> length (objects m')
      \<and> take (length (objects m)) (objects m') = objects m)"

definition rec_extends :: "(marshaler \<Rightarrow> val \<Rightarrow> bool \<Rightarrow> marshaled result) \<Rightarrow> bool" where
  "rec_extends rec = (\<forall>m v i r m'. rec m v i = ret (r, m') \<longrightarrow> extends m m')"


definition rec_strict_ok :: "(marshaler \<Rightarrow> val \<Rightarrow> bool \<Rightarrow> marshaled result) \<Rightarrow> bool" where
  "rec_strict_ok rec =
     (\<forall>m v i x okay m'. strict m \<longrightarrow> rec m v i = ret ((x, okay), m') \<longrightarrow> okay)"

text \<open>
  The calls \<^verbatim>\<open>marshal\<close> makes of itself: \<open>calls h (k, m, v) (k', m', v')\<close> says that the call on
  the value \<open>v\<close> in state \<open>m\<close> with fuel \<open>k\<close> calls \<^verbatim>\<open>marshal\<close> on \<open>v'\<close> in state \<open>m'\<close> with fuel
  \<open>k'\<close>: on an exported field, an element or an entry once those before it have been
  marshalled (those written in the value, or those in the cell of a slice or map held by
  reference), on the value a registered interface holds, on the target of a pointer that
  has no slot. Its reflexive transitive closure relates a call to all the calls made
  while it runs.
\<close>

inductive calls :: "heap \<Rightarrow> nat \<times> marshaler \<times> val \<Rightarrow> nat \<times> marshaler \<times> val \<Rightarrow> bool"
  for h :: heap where
  field: "marshal_fields (marshal n h) m fs1 [] = ret (acc, m1) \<Longrightarrow>
          calls h (Suc n, m, VStruct name (fs1 @ (f, True, v) # fs2)) (n, m1, v)"
| array_elem: "marshal_elems (marshal n h) m vs1 0 [] = ret (Some acc, m1) \<Longrightarrow>
          calls h (Suc n, m, VArray t (vs1 @ v # vs2)) (n, m1, v)"
| slice_elem: "marshal_elems (marshal n h) m vs1 0 [] = ret (Some acc, m1) \<Longrightarrow>
          calls h (Suc n, m, VSlice t (Some (vs1 @ v # vs2))) (n, m1, v)"
| entry: "isMapKeyTypeSupported kt \<Longrightarrow>
          marshal_entries (marshal n h) m es1 [] = ret (out, m1) \<Longrightarrow>
          calls h (Suc n, m, VMap kt et (Some (es1 @ (k, v) # es2))) (n, m1, v)"
| held: "typeNames (types m) (TypeOf v) = Some name \<Longrightarrow>
          calls h (Suc n, m, VIface (Some v)) (n, m, v)"
| target: "refs m ptr = None \<Longrightarrow> ptr < length h \<Longrightarrow>
          calls h (Suc n, m, VPtr t (Some ptr)) (n, reserve m ptr, h ! ptr)"
| shared_elem: "cell_elems h a = Some (vs1 @ v # vs2) \<Longrightarrow>
          marshal_elems (marshal n h) m vs1 0 [] = ret (Some acc, m1) \<Longrightarrow>
          calls h (Suc n, m, VSliceAt t a) (n, m1, v)"
| shared_entry: "cell_entries h a = Some (es1 @ (k, v) # es2) \<Longrightarrow>
          isMapKeyTypeSupported kt \<Longrightarrow>
          marshal_entries (marshal n h) m es1 [] = ret (out, m1) \<Longrightarrow>
          calls h (Suc n, m, VMapAt kt et a) (n, m1, v)"

text \<open>
  A slice or map held by reference is marshalled as the one written with the elements of
  its cell: \<open>inlined h v\<close> is that value, \<open>None\<close> when the memory has no such cell, and \<open>v\<close>
  itself when \<open>v\<close> is no such reference (\<open>inline v\<close>).
\<close>

fun inline :: "val \<Rightarrow> bool" where
  "inline (VSliceAt t a) = False"
| "inline (VMapAt kt et a) = False"
| "inline v = True"

fun inlined :: "heap \<Rightarrow> val \<Rightarrow> val option" where
  "inlined h (VSliceAt t a) = map_option (\<lambda>vs. VArray t vs) (cell_elems h a)"
| "inlined h (VMapAt kt et a) = map_option (\<lambda>es. VMap kt et (Some es)) (cell_entries h a)"
| "inlined h v = Some v"


fun entries_of :: "heap \<Rightarrow> val \<Rightarrow> (gotype \<times> gotype \<times> (val \<times> val) list) option" where
  "entries_of h (VMap kt et (Some es)) = Some (kt, et, es)"
| "entries_of h (VMapAt kt et a) = map_option (\<lambda>es. (kt, et, es)) (cell_entries h a)"
| "entries_of h v = None"

text \<open>
  What decides whether \<^verbatim>\<open>marshal\<close> returns on a memory with cycles. Pointers are looked up
  in \<open>refs\<close>, slices and maps are not, so a cycle must pass through a pointer. \<open>held v\<close> are
  the cells that the slices and maps in \<open>v\<close> have as their storage, not looking behind the
  pointers of \<open>v\<close>, and \<open>stored_in h\<close> relates such a cell \<open>b\<close> to the cell \<open>a\<close> in which the
  slice or map is found. The relation is acyclic exactly when no slice or map of the memory
  is reached from its own elements without passing through a pointer.
\<close>

fun held :: "val \<Rightarrow> addr set" where
  "held (VSliceAt t a) = {a}"
| "held (VMapAt kt et a) = {a}"
| "held (VStruct n fs) = \<Union> (set (map (\<lambda>(f, e, v). held v) fs))"
| "held (VArray t vs) = \<Union> (set (map (\<lambda>v. held v) vs))"
| "held (VSlice t (Some vs)) = \<Union> (set (map (\<lambda>v. held v) vs))"
| "held (VMap kt et (Some es)) = \<Union> (set (map (\<lambda>(k, v). held v) es))"
| "held (VIface (Some v)) = held v"
| "held v = {}"

definition stored_in :: "heap \<Rightarrow> (addr \<times> addr) set" where
  "stored_in h = {(b, a). a < length h \<and> b \<in> held (h ! a)}"

text \<open>
  The proofs measure this by a rank \<open>rk\<close> of the cells: \<open>reach_rank rk v\<close> is one more than
  the largest rank of a cell in \<open>held v\<close>, and 0 when there is none, and \<open>ranked h rk\<close> says
  that each cell only holds slices and maps with storage of smaller rank.
\<close>

fun reach_rank :: "(addr \<Rightarrow> nat) \<Rightarrow> val \<Rightarrow> nat" where
  "reach_rank rk (VSliceAt t a) = Suc (rk a)"
| "reach_rank rk (VMapAt kt et a) = Suc (rk a)"
| "reach_rank rk (VStruct n fs) = foldr max (map (\<lambda>(f, e, v). reach_rank rk v) fs) 0"
| "reach_rank rk (VArray t vs) = foldr max (map (\<lambda>v. reach_rank rk v) vs) 0"
| "reach_rank rk (VSlice t (Some vs)) = foldr max (map (\<lambda>v. reach_rank rk v) vs) 0"
| "reach_rank rk (VMap kt et (Some es)) = foldr max (map (\<lambda>(k, v). reach_rank rk v) es) 0"
| "reach_rank rk (VIface (Some v)) = reach_rank rk v"
| "reach_rank rk v = 0"

definition ranked :: "heap \<Rightarrow> (addr \<Rightarrow> nat) \<Rightarrow> bool" where
  "ranked h rk = (\<forall>a < length h. reach_rank rk (h ! a) \<le> rk a)"

text \<open>The number of cells of the memory that have no slot yet: what the recursion through
  pointers uses up.\<close>

definition unseen :: "heap \<Rightarrow> marshaler \<Rightarrow> nat" where
  "unseen h m = card {a. a < length h \<and> refs m a = None}"



text \<open>How a call of \<^verbatim>\<open>unmarshal\<close> may change the state: the registry and the sources stay,
  an instance in the memo array stays, and the cells that were in the memory stay as they
  are.\<close>

definition uextends :: "unmarshaler \<Rightarrow> unmarshaler \<Rightarrow> bool" where
  "uextends u u' =
     (utypes u' = utypes u \<and> sources u' = sources u
      \<and> length (uobjects u') = length (uobjects u)
      \<and> (\<forall>i < length (uobjects u). uobjects u ! i \<noteq> None \<longrightarrow> uobjects u' ! i = uobjects u ! i)
      \<and> length (mem u) \<le> length (mem u')
      \<and> take (length (mem u)) (mem u') = mem u)"


text \<open>An environment for the examples: the declaration of a list node, and a parser for
  plain decimal numerals, which \<^verbatim>\<open>strconv.ParseUint\<close> reads as the same numbers
  (\<^verbatim>\<open>ParseUint\<close> accepts further forms: the prefixes of base 2, 8 and 16, a leading zero
  for octal, and underscores).\<close>

definition ParseDecimal :: "string \<Rightarrow> nat option" where
  "ParseDecimal s =
     (if s = [] \<or> (\<exists>c \<in> set s. c \<notin> set ''0123456789'') \<or> (length s > 1 \<and> hd s = CHR ''0'')
      then None
      else let n = foldl (\<lambda>n c. 10 * n + (of_char c - 48)) 0 s
           in if n < 2 ^ 64 then Some n else None)"

definition NodeEnv :: env where
  "NodeEnv = \<lparr> decls = (\<lambda>n. if n = ''Node'' then [(''Next'', True, TPointer (TNamed ''Node''))]
                              else []),
               ParseUint = ParseDecimal \<rparr>"

section \<open>Results and failures\<close>

lemma bind_simps [simp]:
  "bind None f = None"
  "bind (Some (Inl e)) f = Some (Inl e)"
  "bind (Some (Inr a)) f = f a"
  "bind (ret a) f = f a"
  "bind (throw e) f = throw e"
  by (simp_all add: bind_def ret_def throw_def)

lemma ret_throw_simps [simp]:
  "ret a \<noteq> throw e" "throw e \<noteq> ret a" "ret a \<noteq> None" "throw e \<noteq> None"
  "None \<noteq> ret a" "None \<noteq> throw e"
  "(ret a = ret b) = (a = b)" "(throw e = throw e') = (e = e')"
  by (auto simp: ret_def throw_def)

lemma result_eq_Some [simp]:
  "(throw e = Some y) = (y = Inl e)" "(ret a = Some y) = (y = Inr a)"
  "(Some y = throw e) = (y = Inl e)" "(Some y = ret a) = (y = Inr a)"
  by (auto simp: ret_def throw_def)

lemma result_cases:
  obtains (Fuel) "r = None" | (Fail) e where "r = throw e" | (Ret) a where "r = ret a"
proof (cases r)
  case None
  then show ?thesis by (rule Fuel)
next
  case (Some a)
  then show ?thesis by (cases a) (auto simp: ret_def throw_def intro: Fail Ret)
qed

lemma bind_eq_ret:
  "(bind r f = ret b) = (\<exists>a. r = ret a \<and> f a = ret b)"
  by (cases r rule: result_cases) auto

lemma bind_mono:
  assumes "bind r f = Some y"
    and "\<And>a. r = Some (Inr a) \<Longrightarrow> f a = Some y \<Longrightarrow> g a = Some y"
  shows "bind r g = Some y"
proof (cases r)
  case None
  with assms(1) show ?thesis by simp
next
  case (Some s)
  with assms show ?thesis by (cases s) auto
qed



section \<open>The registry\<close>

lemma Register_loop_eq:
  "Register_loop ts errs args =
     (foldl (\<lambda>ts (name, t). fst (register ts name t)) ts args,
      errs @ List.map_filter id (register_each ts args))"
proof (induction args arbitrary: ts errs)
  case Nil
  show ?case by simp
next
  case (Cons a args)
  obtain name t where a: "a = (name, t)" by (cases a)
  obtain ts' r where r: "register ts name t = (ts', r)" by (cases "register ts name t")
  show ?case
    by (cases r) (simp_all add: a r Cons.IH)
qed

lemma map_filter_id_Nil:
  "(List.map_filter id xs = []) = list_all (\<lambda>r. r = None) xs"
  by (induction xs) (auto split: option.splits)

lemma register_binds:
  "snd (register ts name t) = None \<Longrightarrow>
   fst (register ts name t)
     = ts\<lparr> typeNames := (typeNames ts)(t \<mapsto> name), nameTypes := (nameTypes ts)(name \<mapsto> t) \<rparr>"
  by (auto simp: register_def split: if_splits)

lemma register_fails: "snd (register ts name t) \<noteq> None \<Longrightarrow> fst (register ts name t) = ts"
  by (auto simp: register_def split: if_splits)

lemma register_succeeds_iff:
  "(snd (register ts name t) = None) =
     (name \<noteq> [] \<and> isTypeSupported t \<and> typeNames ts t = None \<and> nameTypes ts name = None)"
  by (auto simp: register_def)

lemma all_less_Suc_shift: "(\<forall>j < Suc n. P j) = (P 0 \<and> (\<forall>j < n. P (Suc j)))"
  by (auto simp: less_Suc_eq_0_disj)

text \<open>What a batch has bound when it is over: a type has no name exactly when it had none
  before and no successful registration of the batch was for it, and likewise for a
  name.\<close>

lemma typeNames_after_batch:
  "(typeNames (foldl (\<lambda>ts (name, t). fst (register ts name t)) ts args) t' = None) =
     (typeNames ts t' = None
      \<and> (\<forall>j < length args. register_each ts args ! j = None \<longrightarrow> snd (args ! j) \<noteq> t'))"
proof (induction args arbitrary: ts)
  case Nil
  show ?case by simp
next
  case (Cons a args)
  obtain name t where a: "a = (name, t)" by (cases a)
  show ?case
  proof (cases "snd (register ts name t) = None")
    case True
    from register_binds [OF True] show ?thesis
      by (auto simp: a Cons.IH all_less_Suc_shift True)
  next
    case False
    from register_fails [OF False] False show ?thesis
      by (auto simp: a Cons.IH all_less_Suc_shift)
  qed
qed

lemma nameTypes_after_batch:
  "(nameTypes (foldl (\<lambda>ts (name, t). fst (register ts name t)) ts args) name' = None) =
     (nameTypes ts name' = None
      \<and> (\<forall>j < length args. register_each ts args ! j = None \<longrightarrow> fst (args ! j) \<noteq> name'))"
proof (induction args arbitrary: ts)
  case Nil
  show ?case by simp
next
  case (Cons a args)
  obtain name t where a: "a = (name, t)" by (cases a)
  show ?case
  proof (cases "snd (register ts name t) = None")
    case True
    from register_binds [OF True] show ?thesis
      by (auto simp: a Cons.IH all_less_Suc_shift True)
  next
    case False
    from register_fails [OF False] False show ?thesis
      by (auto simp: a Cons.IH all_less_Suc_shift)
  qed
qed

lemma register_each_append:
  "register_each ts (pre @ post) =
     register_each ts pre @ register_each (foldl (\<lambda>ts (name, t). fst (register ts name t)) ts pre) post"
proof (induction pre arbitrary: ts)
  case Nil
  show ?case by simp
next
  case (Cons a pre)
  obtain name t where a: "a = (name, t)" by (cases a)
  show ?case by (simp add: a Cons.IH)
qed

lemma register_each_length: "length (register_each ts args) = length args"
  by (induction args arbitrary: ts) auto

text \<open>
  C9. \<^verbatim>\<open>Register\<close> makes every registration of the batch, each on the registry left by the
  ones before it and whether or not an earlier one failed, so there is one outcome for each
  pair. It returns the join of the errors of the failed ones, in order, which is nil
  exactly when every registration succeeded.

  A single registration succeeds exactly when the name is not empty, the type is
  supported, the type has no name yet and the name has no type yet. A successful one binds
  the type to the name and the name to the type and changes nothing else; a failed one
  leaves the registry as it was, and its error is the one of the first of the four
  conditions that fails.

  So in a batch \<open>pre @ (name, t) # post\<close> the registration of \<open>(name, t)\<close> succeeds exactly
  when the name is not empty, the type is supported, neither type nor name was bound before
  the batch, and no successful registration among \<open>pre\<close> was for the type \<open>t\<close> or under the
  name \<open>name\<close>.
\<close>

theorem Register_joins_every_error:
  "Register ts args =
     (foldl (\<lambda>ts (name, t). fst (register ts name t)) ts args,
      Join (List.map_filter id (register_each ts args)))
   \<and> length (register_each ts args) = length args
   \<and> (snd (Register ts args) = None) = list_all (\<lambda>r. r = None) (register_each ts args)
   \<and> (snd (register ts name t) = None) =
       (name \<noteq> [] \<and> isTypeSupported t \<and> typeNames ts t = None \<and> nameTypes ts name = None)
   \<and> (snd (register ts name t) = None \<longrightarrow>
        fst (register ts name t)
          = ts\<lparr> typeNames := (typeNames ts)(t \<mapsto> name), nameTypes := (nameTypes ts)(name \<mapsto> t) \<rparr>)
   \<and> (snd (register ts name t) \<noteq> None \<longrightarrow>
        fst (register ts name t) = ts
        \<and> snd (register ts name t) =
            Some (if name = [] then NoNameForType t
                  else if \<not> isTypeSupported t then TypeNotSupported t
                  else if typeNames ts t \<noteq> None then TypeAlreadyRegistered t
                  else TypeNameAlreadyRegistered name))
   \<and> (register_each ts (pre @ (name, t) # post) ! length pre = None) =
       (name \<noteq> [] \<and> isTypeSupported t \<and> typeNames ts t = None \<and> nameTypes ts name = None
        \<and> (\<forall>j < length pre. register_each ts (pre @ (name, t) # post) ! j = None \<longrightarrow>
               snd (pre ! j) \<noteq> t \<and> fst (pre ! j) \<noteq> name))"
proof -
  have 1: "Register ts args =
     (foldl (\<lambda>ts (name, t). fst (register ts name t)) ts args,
      Join (List.map_filter id (register_each ts args)))"
    by (simp add: Register_def Register_loop_eq)
  have 2: "length (register_each ts args) = length args"
    by (rule register_each_length)
  have 3: "(snd (Register ts args) = None) = list_all (\<lambda>r. r = None) (register_each ts args)"
    by (simp add: 1 Join_def map_filter_id_Nil)
  have 4: "(snd (register ts name t) = None) =
       (name \<noteq> [] \<and> isTypeSupported t \<and> typeNames ts t = None \<and> nameTypes ts name = None)"
    by (rule register_succeeds_iff)
  have 5: "snd (register ts name t) = None \<longrightarrow>
        fst (register ts name t)
          = ts\<lparr> typeNames := (typeNames ts)(t \<mapsto> name), nameTypes := (nameTypes ts)(name \<mapsto> t) \<rparr>"
    by (simp add: register_binds)
  have 6: "snd (register ts name t) \<noteq> None \<longrightarrow>
        fst (register ts name t) = ts
        \<and> snd (register ts name t) =
            Some (if name = [] then NoNameForType t
                  else if \<not> isTypeSupported t then TypeNotSupported t
                  else if typeNames ts t \<noteq> None then TypeAlreadyRegistered t
                  else TypeNameAlreadyRegistered name)"
    by (auto simp: register_def)
  define ts1 where "ts1 = foldl (\<lambda>ts (name, t). fst (register ts name t)) ts pre"
  have nth: "register_each ts (pre @ (name, t) # post) ! length pre = snd (register ts1 name t)"
    by (simp add: register_each_append nth_append register_each_length ts1_def)
  have pre: "register_each ts (pre @ (name, t) # post) ! j = register_each ts pre ! j"
    if "j < length pre" for j
    using that by (simp add: register_each_append nth_append register_each_length)
  have 7: "(register_each ts (pre @ (name, t) # post) ! length pre = None) =
       (name \<noteq> [] \<and> isTypeSupported t \<and> typeNames ts t = None \<and> nameTypes ts name = None
        \<and> (\<forall>j < length pre. register_each ts (pre @ (name, t) # post) ! j = None \<longrightarrow>
               snd (pre ! j) \<noteq> t \<and> fst (pre ! j) \<noteq> name))"
  proof -
    have a: "(snd (register ts1 name t) = None) =
        (name \<noteq> [] \<and> isTypeSupported t \<and> typeNames ts1 t = None \<and> nameTypes ts1 name = None)"
      by (rule register_succeeds_iff)
    have b: "(typeNames ts1 t = None) =
        (typeNames ts t = None
         \<and> (\<forall>j < length pre. register_each ts pre ! j = None \<longrightarrow> snd (pre ! j) \<noteq> t))"
      unfolding ts1_def by (rule typeNames_after_batch)
    have c: "(nameTypes ts1 name = None) =
        (nameTypes ts name = None
         \<and> (\<forall>j < length pre. register_each ts pre ! j = None \<longrightarrow> fst (pre ! j) \<noteq> name))"
      unfolding ts1_def by (rule nameTypes_after_batch)
    show ?thesis unfolding nth a b c using pre by auto
  qed
  show ?thesis using 1 2 3 4 5 6 7 by blast
qed

text \<open>The witness is a batch of six registrations on the empty registry: \<^verbatim>\<open>int\<close> as \<open>a\<close>,
  \<^verbatim>\<open>int\<close> again as \<open>b\<close>, \<^verbatim>\<open>string\<close> under the name \<open>a\<close> again, \<^verbatim>\<open>bool\<close> with no name, a
  channel type as \<open>c\<close>, and \<^verbatim>\<open>string\<close> as \<open>d\<close>. The first and the last succeed; the four
  errors of the others are joined in order.\<close>

theorem Register_joins_every_error_witness:
  "register_each NewTypes
      [(''a'', TBasic KInt), (''b'', TBasic KInt), (''a'', TBasic KString), ([], TBasic KBool),
       (''c'', TUnsup KChan), (''d'', TBasic KString)]
     = [None, Some (TypeAlreadyRegistered (TBasic KInt)), Some (TypeNameAlreadyRegistered ''a''),
        Some (NoNameForType (TBasic KBool)), Some (TypeNotSupported (TUnsup KChan)), None]
   \<and> snd (Register NewTypes
      [(''a'', TBasic KInt), (''b'', TBasic KInt), (''a'', TBasic KString), ([], TBasic KBool),
       (''c'', TUnsup KChan), (''d'', TBasic KString)])
     = Some [TypeAlreadyRegistered (TBasic KInt), TypeNameAlreadyRegistered ''a'',
             NoNameForType (TBasic KBool), TypeNotSupported (TUnsup KChan)]
   \<and> typeNames (fst (Register NewTypes
      [(''a'', TBasic KInt), (''b'', TBasic KInt), (''a'', TBasic KString), ([], TBasic KBool),
       (''c'', TUnsup KChan), (''d'', TBasic KString)])) (TBasic KInt) = Some ''a''
   \<and> typeNames (fst (Register NewTypes
      [(''a'', TBasic KInt), (''b'', TBasic KInt), (''a'', TBasic KString), ([], TBasic KBool),
       (''c'', TUnsup KChan), (''d'', TBasic KString)])) (TBasic KString) = Some ''d''
   \<and> nameTypes (fst (Register NewTypes
      [(''a'', TBasic KInt), (''b'', TBasic KInt), (''a'', TBasic KString), ([], TBasic KBool),
       (''c'', TUnsup KChan), (''d'', TBasic KString)])) ''a'' = Some (TBasic KInt)
   \<and> nameTypes (fst (Register NewTypes
      [(''a'', TBasic KInt), (''b'', TBasic KInt), (''a'', TBasic KString), ([], TBasic KBool),
       (''c'', TUnsup KChan), (''d'', TBasic KString)])) ''b'' = None
   \<and> snd (register NewTypes ''a'' (TBasic KInt)) = None
   \<and> fst (register NewTypes ''a'' (TBasic KInt))
       = NewTypes\<lparr> typeNames := (typeNames NewTypes)(TBasic KInt \<mapsto> ''a''),
                   nameTypes := (nameTypes NewTypes)(''a'' \<mapsto> TBasic KInt) \<rparr>
   \<and> register_each NewTypes ([(''a'', TBasic KInt)] @ (''b'', TBasic KInt) # []) ! length [(''a'', TBasic KInt)]
       \<noteq> None"
proof -
  let ?args = "[(''a'', TBasic KInt), (''b'', TBasic KInt), (''a'', TBasic KString),
                ([], TBasic KBool), (''c'', TUnsup KChan), (''d'', TBasic KString)]"
  note inst = Register_joins_every_error [where ts = NewTypes and args = ?args
      and name = "''a''" and t = "TBasic KInt"]
  have each: "register_each NewTypes ?args
     = [None, Some (TypeAlreadyRegistered (TBasic KInt)), Some (TypeNameAlreadyRegistered ''a''),
        Some (NoNameForType (TBasic KBool)), Some (TypeNotSupported (TUnsup KChan)), None]"
    by (simp add: register_def NewTypes_def)
  from inst each have res: "Register NewTypes ?args =
     (foldl (\<lambda>ts (name, t). fst (register ts name t)) NewTypes ?args,
      Some [TypeAlreadyRegistered (TBasic KInt), TypeNameAlreadyRegistered ''a'',
            NoNameForType (TBasic KBool), TypeNotSupported (TUnsup KChan)])"
    by (simp add: Join_def List.map_filter_def)
  have first: "snd (register NewTypes ''a'' (TBasic KInt)) = None"
    by (simp add: register_def NewTypes_def)
  with inst have bound: "fst (register NewTypes ''a'' (TBasic KInt))
       = NewTypes\<lparr> typeNames := (typeNames NewTypes)(TBasic KInt \<mapsto> ''a''),
                   nameTypes := (nameTypes NewTypes)(''a'' \<mapsto> TBasic KInt) \<rparr>"
    by blast
  note second = Register_joins_every_error [where ts = NewTypes and pre = "[(''a'', TBasic KInt)]"
      and name = "''b''" and t = "TBasic KInt" and post = "[]"]
  have "register_each NewTypes ([(''a'', TBasic KInt)] @ (''b'', TBasic KInt) # []) ! 0 = None"
    by (simp add: register_def NewTypes_def)
  with second have dup:
    "register_each NewTypes ([(''a'', TBasic KInt)] @ (''b'', TBasic KInt) # []) ! length [(''a'', TBasic KInt)]
       \<noteq> None"
    by (auto simp del: register_each.simps)
  have fold: "foldl (\<lambda>ts (name, t). fst (register ts name t)) NewTypes ?args
      = \<lparr> typeNames = [TBasic KInt \<mapsto> ''a'', TBasic KString \<mapsto> ''d''],
          nameTypes = [''a'' \<mapsto> TBasic KInt, ''d'' \<mapsto> TBasic KString] \<rparr>"
    by (simp add: register_def NewTypes_def)
  from each res first bound dup fold show ?thesis by simp
qed

section \<open>Slices and maps held by reference\<close>

lemma marshal_body_inlined:
  "marshal_body rec h m v init =
     (case inlined h v of
        None \<Rightarrow> throw (GoPanic ''invalid memory address'')
      | Some v' \<Rightarrow> marshal_body rec h m v' init)"
  by (cases v) (auto simp: marshal_map_def split: option.splits)

lemma inlined_inline: "inlined h v = Some v' \<Longrightarrow> inline v'"
  by (cases v) auto


lemma marshal_body_entries:
  "entries_of h s = Some (kt, et, es) \<Longrightarrow>
   marshal_body rec h m s init = marshal_map rec m kt et es init"
  by (cases "(h, s)" rule: entries_of.cases) (auto simp: marshal_map_def)

section \<open>The loops of marshal\<close>

lemma marshal_entries_append:
  "marshal_entries rec m (es1 @ es2) acc =
     bind (marshal_entries rec m es1 acc) (\<lambda>(acc', m'). marshal_entries rec m' es2 acc')"
proof (induction es1 arbitrary: m acc)
  case Nil
  show ?case by simp
next
  case (Cons e es1)
  obtain k v where e: "e = (k, v)" by (cases e)
  show ?case
  proof (cases "rec m v False" rule: result_cases)
    case (Ret a)
    obtain x okay m' where a: "a = ((x, okay), m')" by (cases a) auto
    show ?thesis by (simp add: e Ret a Cons.IH)
  qed (simp_all add: e)
qed

lemma marshal_entries_other_key:
  "marshal_entries rec m es acc = ret (out, m') \<Longrightarrow> k \<notin> fst ` set es \<Longrightarrow>
   map_of out k = map_of acc k"
proof (induction es arbitrary: m acc)
  case Nil
  then show ?case by simp
next
  case (Cons e es)
  obtain k' v where e: "e = (k', v)" by (cases e)
  from Cons.prems(2) have k: "k \<noteq> k'" "k \<notin> fst ` set es" by (auto simp: e)
  from Cons.prems(1) obtain x okay m1 where
    r: "rec m v False = ret ((x, okay), m1)" and
    rest: "marshal_entries rec m1 es
             (if okay then AList.update k' (VIface x) acc else acc) = ret (out, m')"
    by (auto simp: e bind_eq_ret)
  from Cons.IH [OF rest k(2)] k(1) show ?case
    by (simp add: update_conv')
qed

lemma marshal_elems_append:
  "marshal_elems rec m (vs1 @ vs2) i acc =
     bind (marshal_elems rec m vs1 i acc) (\<lambda>(r, m').
       case r of None \<Rightarrow> ret (None, m')
       | Some acc' \<Rightarrow> marshal_elems rec m' vs2 (i + length vs1) acc')"
proof (induction vs1 arbitrary: m i acc)
  case Nil
  show ?case by simp
next
  case (Cons v vs1)
  show ?case
  proof (cases "rec m v False" rule: result_cases)
    case (Ret a)
    obtain x okay m' where a: "a = ((x, okay), m')" by (cases a) auto
    show ?thesis by (simp add: Ret a Cons.IH cong: option.case_cong)
  qed simp_all
qed

section \<open>What a call of marshal leaves of the state\<close>

lemma extends_refl [simp]: "extends m m"
  by (simp add: extends_def)

lemma extends_trans:
  assumes a: "extends m1 m2" and b: "extends m2 m3"
  shows "extends m1 m3"
proof -
  from a have l12: "length (objects m1) \<le> length (objects m2)"
    and t12: "take (length (objects m1)) (objects m2) = objects m1"
    by (simp_all add: extends_def)
  from b have t23: "take (length (objects m2)) (objects m3) = objects m2"
    by (simp add: extends_def)
  have "take (length (objects m1)) (take (length (objects m2)) (objects m3))
          = take (length (objects m1)) (objects m3)"
    using l12 by (simp add: min_def)
  with t12 t23 have "take (length (objects m1)) (objects m3) = objects m1" by simp
  moreover from a b have "refs m1 \<subseteq>\<^sub>m refs m3"
    unfolding extends_def by (blast intro: map_le_trans)
  ultimately show ?thesis using a b by (simp add: extends_def)
qed

lemma extends_append_init [simp]: "extends m (append_init init x m)"
  by (simp add: extends_def append_init_def)

lemma rec_extendsD: "rec_extends rec \<Longrightarrow> rec m v i = ret (r, m') \<Longrightarrow> extends m m'"
  unfolding rec_extends_def by blast

lemma marshal_fields_extends:
  "rec_extends rec \<Longrightarrow> marshal_fields rec m fs acc = ret (out, m') \<Longrightarrow> extends m m'"
proof (induction fs arbitrary: m acc)
  case Nil
  then show ?case by simp
next
  case (Cons f fs)
  obtain name exported v where f: "f = (name, exported, v)" by (cases f)
  show ?case
  proof (cases exported)
    case True
    with Cons.prems(2) obtain x okay m1 where
      r: "rec m v False = ret ((x, okay), m1)" and
      rest: "marshal_fields rec m1 fs
               (if okay \<and> x \<noteq> None then AList.update (StringKey name) (VIface x) acc else acc)
             = ret (out, m')"
      by (auto simp: f bind_eq_ret)
    from rec_extendsD [OF Cons.prems(1) r] Cons.IH [OF Cons.prems(1) rest]
    show ?thesis by (rule extends_trans)
  next
    case False
    with Cons.prems(2) have "marshal_fields rec m fs acc = ret (out, m')" by (simp add: f)
    from Cons.IH [OF Cons.prems(1) this] show ?thesis .
  qed
qed

lemma marshal_elems_extends:
  "rec_extends rec \<Longrightarrow> marshal_elems rec m vs i acc = ret (out, m') \<Longrightarrow> extends m m'"
proof (induction vs arbitrary: m i acc)
  case Nil
  then show ?case by simp
next
  case (Cons v vs)
  from Cons.prems(2) obtain x okay m1 where
    r: "rec m v False = ret ((x, okay), m1)" and
    rest: "(if \<not> okay then
              (if i > 0 then throw (GoPanic ''failed to marshal secondary slice element'')
               else ret (None, m1))
            else marshal_elems rec m1 vs (Suc i) (acc @ [VIface x])) = ret (out, m')"
    by (auto simp: bind_eq_ret)
  note e1 = rec_extendsD [OF Cons.prems(1) r]
  show ?case
  proof (cases okay)
    case True
    with rest have "marshal_elems rec m1 vs (Suc i) (acc @ [VIface x]) = ret (out, m')" by simp
    from e1 Cons.IH [OF Cons.prems(1) this] show ?thesis by (rule extends_trans)
  next
    case False
    with rest have "m' = m1" by (auto split: if_splits)
    with e1 show ?thesis by simp
  qed
qed

lemma marshal_entries_extends:
  "rec_extends rec \<Longrightarrow> marshal_entries rec m es acc = ret (out, m') \<Longrightarrow> extends m m'"
proof (induction es arbitrary: m acc)
  case Nil
  then show ?case by simp
next
  case (Cons e es)
  obtain k v where e: "e = (k, v)" by (cases e)
  from Cons.prems(2) obtain x okay m1 where
    r: "rec m v False = ret ((x, okay), m1)" and
    rest: "marshal_entries rec m1 es
             (if okay then AList.update k (VIface x) acc else acc) = ret (out, m')"
    by (auto simp: e bind_eq_ret)
  from rec_extendsD [OF Cons.prems(1) r] Cons.IH [OF Cons.prems(1) rest]
  show ?case by (rule extends_trans)
qed

lemma extends_append_init2: "extends m b \<Longrightarrow> extends m (append_init init x b)"
  by (erule extends_trans) simp

lemma marshal_seq_extends:
  assumes rec: "rec_extends rec" and res: "marshal_seq rec m vs init = ret (r, m')"
  shows "extends m m'"
proof -
  from res obtain out m1 where
    loop: "marshal_elems rec m vs 0 [] = ret (out, m1)" and
    k: "(case out of None \<Rightarrow> ret ((None, False), m1)
         | Some marshaled \<Rightarrow>
             ret ((Some (AnySlice marshaled), True),
                  append_init init (Some (AnySlice marshaled)) m1)) = ret (r, m')"
    by (auto simp: marshal_seq_def bind_eq_ret)
  from rec loop have e: "extends m m1" by (rule marshal_elems_extends)
  from k e show ?thesis
    by (cases out) (auto intro: extends_append_init2)
qed

lemma extends_reserve:
  "refs m ptr = None \<Longrightarrow>
   extends m (m\<lparr> refs := (refs m)(ptr \<mapsto> length (objects m)), objects := objects m @ [None] \<rparr>)"
  by (auto simp: extends_def map_le_def)

lemma marshal_body_pointer_extends:
  assumes rec: "rec_extends rec"
    and res: "marshal_body rec h m (VPtr t (Some ptr)) init = ret (r, m')"
  shows "extends m m'"
proof (cases "refs m ptr")
  case (Some index)
  with res show ?thesis by simp
next
  case None
  define index where "index = length (objects m)"
  define m1 where "m1 = m\<lparr> refs := (refs m)(ptr \<mapsto> index), objects := objects m @ [None] \<rparr>"
  define K :: "marshaled \<Rightarrow> marshaled result" where "K = (\<lambda>((x, okay), m2).
           if okay then
             (if index < length (objects m2) then
                ret ((Some (Index index), True), m2\<lparr> objects := (objects m2)[index := x] \<rparr>)
              else throw (GoPanic ''index out of range''))
           else ret ((None, False), m2\<lparr> objects := take index (objects m2) \<rparr>))"
  from res None have "\<not> ptr \<ge> length h"
    by (simp add: Let_def split: if_splits)
  with res None have "bind (rec m1 (h ! ptr) False) K = ret (r, m')"
    unfolding K_def m1_def index_def by (simp add: Let_def)
  then obtain a where
    r: "rec m1 (h ! ptr) False = ret a" and k: "K a = ret (r, m')"
    unfolding bind_eq_ret by blast
  obtain x okay m2 where a: "a = ((x, okay), m2)" by (cases a) auto
  from k have m': "m' = (if okay then m2\<lparr> objects := (objects m2)[index := x] \<rparr>
               else m2\<lparr> objects := take index (objects m2) \<rparr>)"
    by (simp add: a K_def split: if_splits)
  have e1: "extends m m1"
    unfolding m1_def index_def using None by (rule extends_reserve)
  have e2: "extends m1 m2" using rec r unfolding a by (rule rec_extendsD)
  from e1 e2 have e: "extends m m2" by (rule extends_trans)
  show ?thesis
    using e unfolding extends_def m' index_def by (auto simp: min_def)
qed

lemma marshal_body_extends_inline:
  assumes rec: "rec_extends rec"
    and res: "marshal_body rec h m v init = ret (r, m')"
    and inl: "inline v"
  shows "extends m m'"
proof (cases v)
  case (VBasic b s)
  with res show ?thesis by auto
next
  case (VUnsup u)
  with res show ?thesis by (auto split: if_splits)
next
  case (VStruct n fs)
  with res obtain out m1 where
    loop: "marshal_fields rec m fs [] = ret (out, m1)" and
    m': "m' = append_init init (Some (StringMap out)) m1"
    by (auto simp: bind_eq_ret)
  from rec loop have "extends m m1" by (rule marshal_fields_extends)
  then show ?thesis unfolding m' by (rule extends_append_init2)
next
  case (VArray t vs)
  with res have "marshal_seq rec m vs init = ret (r, m')" by simp
  with rec show ?thesis by (rule marshal_seq_extends)
next
  case (VSlice t xs)
  show ?thesis
  proof (cases xs)
    case None
    with res VSlice show ?thesis by auto
  next
    case (Some vs)
    with res VSlice have "marshal_seq rec m vs init = ret (r, m')" by simp
    with rec show ?thesis by (rule marshal_seq_extends)
  qed
next
  case (VMap kt et xs)
  show ?thesis
  proof (cases xs)
    case None
    with res VMap show ?thesis by auto
  next
    case (Some es)
    show ?thesis
    proof (cases "isMapKeyTypeSupported kt")
      case False
      with res VMap Some show ?thesis by (auto split: if_splits)
    next
      case True
      with res VMap Some obtain out m1 where
        loop: "marshal_entries rec m es [] = ret (out, m1)" and
        m': "m' = append_init init (Some (VMap kt TInterface (Some out))) m1"
        by (auto simp: bind_eq_ret)
      from rec loop have "extends m m1" by (rule marshal_entries_extends)
      then show ?thesis unfolding m' by (rule extends_append_init2)
    qed
  qed
next
  case (VIface x)
  show ?thesis
  proof (cases x)
    case None
    with res VIface show ?thesis by auto
  next
    case (Some c)
    with res VIface obtain name a where
      r: "rec m c False = ret a" and
      k: "(case a of ((x, okay), m1) \<Rightarrow>
            if \<not> okay then throw (GoPanic ''failed to marshal registered type'')
            else ret ((Some (StringMap [(StringKey name, VIface x)]), True),
                      append_init init (Some (StringMap [(StringKey name, VIface x)])) m1))
           = ret (r, m')"
      by (auto simp: bind_eq_ret split: option.splits)
    obtain y okay m1 where a: "a = ((y, okay), m1)" by (cases a) auto
    from k have m': "m' = append_init init (Some (StringMap [(StringKey name, VIface y)])) m1"
      by (simp add: a split: if_splits)
    from rec r have "extends m m1" unfolding a by (rule rec_extendsD)
    then show ?thesis unfolding m' by (rule extends_append_init2)
  qed
next
  case (VPtr t a)
  show ?thesis
  proof (cases a)
    case None
    with res VPtr show ?thesis by auto
  next
    case (Some ptr)
    with res VPtr rec show ?thesis by (auto dest: marshal_body_pointer_extends)
  qed
next
  case (VSliceAt t a)
  with inl show ?thesis by simp
next
  case (VMapAt kt et a)
  with inl show ?thesis by simp
qed

lemma marshal_body_extends:
  assumes rec: "rec_extends rec"
    and res: "marshal_body rec h m v init = ret (r, m')"
  shows "extends m m'"
proof (cases "inlined h v")
  case None
  with res show ?thesis by (simp add: marshal_body_inlined [of rec h m v])
next
  case (Some v')
  with res have "marshal_body rec h m v' init = ret (r, m')"
    by (simp add: marshal_body_inlined [of rec h m v])
  from marshal_body_extends_inline [OF rec this inlined_inline [OF Some]] show ?thesis .
qed

lemma marshal_extends:
  "marshal n h m v init = ret (r, m') \<Longrightarrow> extends m m'"
proof (induction n arbitrary: m v init r m')
  case 0
  then show ?case by simp
next
  case (Suc n)
  have "rec_extends (marshal n h)"
    unfolding rec_extends_def using Suc.IH by blast
  with Suc.prems show ?case by (auto dest: marshal_body_extends)
qed

section \<open>More fuel does not change a result\<close>













section \<open>Termination of marshal\<close>










lemma foldr_max_le: "(foldr max (map f xs) 0 \<le> (n::nat)) = (\<forall>x \<in> set xs. f x \<le> n)"
  by (induction xs) auto

lemma reach_rank_le: "(reach_rank rk v \<le> n) = (\<forall>b \<in> held v. rk b < n)"
proof (induction v arbitrary: n)
  case (VStruct name fs)
  have "(\<forall>f \<in> set fs. (case f of (f, e, v) \<Rightarrow> reach_rank rk v) \<le> n)
      = (\<forall>f \<in> set fs. \<forall>b \<in> (case f of (f, e, v) \<Rightarrow> held v). rk b < n)"
  proof (intro ball_cong refl)
    fix f assume f: "f \<in> set fs"
    obtain a e v where fv: "f = (a, e, v)" by (cases f)
    from f have "(reach_rank rk v \<le> n) = (\<forall>b \<in> held v. rk b < n)"
      by (intro VStruct.IH [of f "(e, v)" v]) (auto simp: fv)
    then show "((case f of (f, e, v) \<Rightarrow> reach_rank rk v) \<le> n)
        = (\<forall>b \<in> (case f of (f, e, v) \<Rightarrow> held v). rk b < n)"
      by (simp add: fv)
  qed
  then show ?case by (simp add: foldr_max_le)
next
  case (VArray t vs)
  then show ?case by (simp add: foldr_max_le)
next
  case (VSlice t xs)
  then show ?case by (cases xs) (auto simp: foldr_max_le)
next
  case (VMap kt et xs)
  show ?case
  proof (cases xs)
    case None
    then show ?thesis by simp
  next
    case (Some es)
    have "(\<forall>e \<in> set es. (case e of (k, v) \<Rightarrow> reach_rank rk v) \<le> n)
        = (\<forall>e \<in> set es. \<forall>b \<in> (case e of (k, v) \<Rightarrow> held v). rk b < n)"
    proof (intro ball_cong refl)
      fix e assume e: "e \<in> set es"
      obtain k v where kv: "e = (k, v)" by (cases e)
      from e have "(reach_rank rk v \<le> n) = (\<forall>b \<in> held v. rk b < n)"
        by (intro VMap.IH [of es e v]) (auto simp: kv Some)
      then show "((case e of (k, v) \<Rightarrow> reach_rank rk v) \<le> n)
          = (\<forall>b \<in> (case e of (k, v) \<Rightarrow> held v). rk b < n)"
        by (simp add: kv)
    qed
    then show ?thesis by (simp add: Some foldr_max_le)
  qed
next
  case (VIface x)
  then show ?case by (cases x) auto
qed auto




lemma ranked_acyclic:
  assumes "ranked h rk"
  shows "acyclic (stored_in h)"
proof -
  have step: "rk b < rk a" if "(b, a) \<in> stored_in h" for a b
    using that assms by (auto simp: stored_in_def ranked_def reach_rank_le)
  have "rk b < rk a" if "(b, a) \<in> (stored_in h)\<^sup>+" for a b
    using that by (induction rule: trancl_induct) (auto dest: step intro: less_trans)
  then show ?thesis by (auto simp: acyclic_def)
qed









section \<open>The pointer case\<close>

lemma marshal_pointer_new:
  "refs m ptr = None \<Longrightarrow> ptr < length h \<Longrightarrow>
   marshal (Suc n) h m (VPtr t (Some ptr)) init =
     bind (marshal n h (reserve m ptr) (h ! ptr) False) (complete (length (objects m)))"
  unfolding reserve_def complete_def by (simp add: Let_def)

lemma marshal_pointer_seen:
  "refs m ptr = Some i \<Longrightarrow>
   marshal (Suc n) h m (VPtr t (Some ptr)) init = ret ((Some (Index i), True), m)"
  by simp

lemma extends_reserve': "refs m ptr = None \<Longrightarrow> extends m (reserve m ptr)"
  unfolding reserve_def by (rule extends_reserve)

section \<open>Strict mode never reports a value as absent\<close>

lemma rec_strict_okD:
  "rec_strict_ok rec \<Longrightarrow> strict m \<Longrightarrow> rec m v i = ret ((x, okay), m') \<Longrightarrow> okay"
  unfolding rec_strict_ok_def by blast

lemma extends_strict: "extends m m' \<Longrightarrow> strict m' = strict m"
  by (simp add: extends_def)

lemma marshal_elems_strict:
  "rec_strict_ok rec \<Longrightarrow> rec_extends rec \<Longrightarrow> strict m \<Longrightarrow>
   marshal_elems rec m vs i acc = ret (r, m') \<Longrightarrow> r \<noteq> None"
proof (induction vs arbitrary: m i acc)
  case Nil
  then show ?case by auto
next
  case (Cons v vs)
  define K :: "marshaled \<Rightarrow> (val list option \<times> marshaler) result" where
    "K = (\<lambda>((x, okay), m1).
           if \<not> okay then
              (if i > 0 then throw (GoPanic ''failed to marshal secondary slice element'')
               else ret (None, m1))
            else marshal_elems rec m1 vs (Suc i) (acc @ [VIface x]))"
  from Cons.prems(4) have "bind (rec m v False) K = ret (r, m')"
    unfolding K_def by simp
  then obtain a where r: "rec m v False = ret a" and k: "K a = ret (r, m')"
    unfolding bind_eq_ret by blast
  obtain x okay m1 where a: "a = ((x, okay), m1)" by (cases a) auto
  from rec_strict_okD [OF Cons.prems(1,3) r [unfolded a]] have okay: okay .
  from rec_extendsD [OF Cons.prems(2) r [unfolded a]] Cons.prems(3) have "strict m1"
    by (simp add: extends_strict)
  moreover from k okay have "marshal_elems rec m1 vs (Suc i) (acc @ [VIface x]) = ret (r, m')"
    by (simp add: a K_def)
  ultimately show ?case using Cons.IH Cons.prems(1,2) by blast
qed

lemma marshal_body_strict_inline:
  assumes ok: "rec_strict_ok rec" and ext: "rec_extends rec" and strict: "strict m"
    and res: "marshal_body rec h m v init = ret ((x, okay), m')"
    and inl: "inline v"
  shows okay
proof (cases v)
  case (VBasic b s)
  with res show ?thesis by auto
next
  case (VUnsup u)
  with res strict show ?thesis by auto
next
  case (VStruct n fs)
  with res show ?thesis by (auto simp: bind_eq_ret)
next
  case (VArray t vs)
  with res obtain r m1 where
    loop: "marshal_elems rec m vs 0 [] = ret (r, m1)" and
    k: "(case r of None \<Rightarrow> ret ((None, False), m1)
         | Some marshaled \<Rightarrow>
             ret ((Some (AnySlice marshaled), True),
                  append_init init (Some (AnySlice marshaled)) m1)) = ret ((x, okay), m')"
    by (auto simp: marshal_seq_def bind_eq_ret)
  from marshal_elems_strict [OF ok ext strict loop] k show ?thesis by auto
next
  case (VSlice t xs)
  show ?thesis
  proof (cases xs)
    case None
    with res VSlice show ?thesis by auto
  next
    case (Some vs)
    with res VSlice obtain r m1 where
      loop: "marshal_elems rec m vs 0 [] = ret (r, m1)" and
      k: "(case r of None \<Rightarrow> ret ((None, False), m1)
           | Some marshaled \<Rightarrow>
               ret ((Some (AnySlice marshaled), True),
                    append_init init (Some (AnySlice marshaled)) m1)) = ret ((x, okay), m')"
      by (auto simp: marshal_seq_def bind_eq_ret)
    from marshal_elems_strict [OF ok ext strict loop] k show ?thesis by auto
  qed
next
  case (VMap kt et xs)
  with res strict show ?thesis
    by (cases xs) (auto simp: bind_eq_ret split: if_splits)
next
  case (VIface y)
  with res show ?thesis
    by (cases y) (auto simp: bind_eq_ret split: option.splits if_splits)
next
  case (VPtr t a)
  show ?thesis
  proof (cases a)
    case None
    with res VPtr show ?thesis by auto
  next
    case (Some ptr)
    show ?thesis
    proof (cases "refs m ptr")
      case (Some i)
      with res VPtr \<open>a = Some ptr\<close> show ?thesis by auto
    next
      case None
      define m1 where "m1 = m\<lparr> refs := (refs m)(ptr \<mapsto> length (objects m)),
                                objects := objects m @ [None] \<rparr>"
      define K :: "marshaled \<Rightarrow> marshaled result" where "K = (\<lambda>((x, okay), m2).
           if okay then
             (if length (objects m) < length (objects m2) then
                ret ((Some (Index (length (objects m))), True),
                     m2\<lparr> objects := (objects m2)[length (objects m) := x] \<rparr>)
              else throw (GoPanic ''index out of range''))
           else ret ((None, False), m2\<lparr> objects := take (length (objects m)) (objects m2) \<rparr>))"
      from res None have "\<not> ptr \<ge> length h"
        by (simp add: VPtr \<open>a = Some ptr\<close> Let_def split: if_splits)
      with res None have "bind (rec m1 (h ! ptr) False) K = ret ((x, okay), m')"
        unfolding K_def m1_def VPtr \<open>a = Some ptr\<close> by (simp add: Let_def)
      then obtain b where r: "rec m1 (h ! ptr) False = ret b" and k: "K b = ret ((x, okay), m')"
        unfolding bind_eq_ret by blast
      obtain y okay' m2 where b: "b = ((y, okay'), m2)" by (cases b) auto
      have "strict m1" using strict by (simp add: m1_def)
      from rec_strict_okD [OF ok this r [unfolded b]] have okay' .
      with k show ?thesis by (auto simp: K_def b split: if_splits)
    qed
  qed
next
  case (VSliceAt t a)
  with inl show ?thesis by simp
next
  case (VMapAt kt et a)
  with inl show ?thesis by simp
qed

lemma marshal_body_strict:
  assumes ok: "rec_strict_ok rec" and ext: "rec_extends rec" and strict: "strict m"
    and res: "marshal_body rec h m v init = ret ((x, okay), m')"
  shows okay
proof (cases "inlined h v")
  case None
  with res show ?thesis by (simp add: marshal_body_inlined [of rec h m v])
next
  case (Some v')
  with res have "marshal_body rec h m v' init = ret ((x, okay), m')"
    by (simp add: marshal_body_inlined [of rec h m v])
  from marshal_body_strict_inline [OF ok ext strict this inlined_inline [OF Some]] show ?thesis .
qed

lemma marshal_strict_ok:
  "strict m \<Longrightarrow> marshal n h m v init = ret ((x, okay), m') \<Longrightarrow> okay"
proof (induction n arbitrary: m v init x okay m')
  case 0
  then show ?case by simp
next
  case (Suc n)
  have 1: "rec_strict_ok (marshal n h)"
    unfolding rec_strict_ok_def using Suc.IH by blast
  have 2: "rec_extends (marshal n h)"
    unfolding rec_extends_def using marshal_extends by blast
  from Suc.prems(2) have "marshal_body (marshal n h) h m v init = ret ((x, okay), m')"
    by (simp only: marshal.simps)
  from marshal_body_strict [OF 1 2 Suc.prems(1) this] show ?case .
qed

section \<open>Failures reach the caller\<close>

lemma marshal_fields_append:
  "marshal_fields rec m (fs1 @ fs2) acc =
     bind (marshal_fields rec m fs1 acc) (\<lambda>(acc', m'). marshal_fields rec m' fs2 acc')"
proof (induction fs1 arbitrary: m acc)
  case Nil
  show ?case by simp
next
  case (Cons f fs1)
  obtain name exported v where f: "f = (name, exported, v)" by (cases f)
  show ?case
  proof (cases exported)
    case False
    then show ?thesis by (simp add: f Cons.IH)
  next
    case True
    show ?thesis
    proof (cases "rec m v False" rule: result_cases)
      case (Ret a)
      obtain x okay m' where a: "a = ((x, okay), m')" by (cases a) auto
      show ?thesis by (simp add: f True Ret a Cons.IH)
    qed (simp_all add: f True)
  qed
qed

lemma calls_throw:
  assumes c: "calls h (k, m, v) (k', m', v')" and t: "marshal k' h m' v' False = throw e"
  shows "marshal k h m v init = throw e"
  using c
proof cases
  case (field fs1 acc name f fs2)
  with t show ?thesis by (simp add: marshal_fields_append)
next
  case (array_elem vs1 acc t vs2)
  with t show ?thesis by (simp add: marshal_seq_def marshal_elems_append)
next
  case (slice_elem vs1 acc t vs2)
  with t show ?thesis by (simp add: marshal_seq_def marshal_elems_append)
next
  case (entry kt es1 out et k es2)
  with t show ?thesis by (simp add: marshal_entries_append)
next
  case (held name)
  with t show ?thesis by simp
next
  case (target ptr t)
  with t show ?thesis by (simp add: reserve_def Let_def)
next
  case (shared_elem a vs1 vs2 acc t)
  with t show ?thesis by (simp add: marshal_seq_def marshal_elems_append)
next
  case (shared_entry a es1 k es2 kt out et)
  with t show ?thesis by (simp add: marshal_map_def marshal_entries_append)
qed

lemma calls_extends:
  assumes c: "calls h (k, m, v) (k', m', v')"
  shows "extends m m'"
  using c
proof cases
  case (field fs1 acc name f fs2)
  have "rec_extends (marshal k' h)" unfolding rec_extends_def by (blast intro: marshal_extends)
  from marshal_fields_extends [OF this field(3)] show ?thesis .
next
  case (array_elem vs1 acc t vs2)
  have "rec_extends (marshal k' h)" unfolding rec_extends_def by (blast intro: marshal_extends)
  from marshal_elems_extends [OF this array_elem(3)] show ?thesis .
next
  case (slice_elem vs1 acc t vs2)
  have "rec_extends (marshal k' h)" unfolding rec_extends_def by (blast intro: marshal_extends)
  from marshal_elems_extends [OF this slice_elem(3)] show ?thesis .
next
  case (entry kt es1 out et k es2)
  have "rec_extends (marshal k' h)" unfolding rec_extends_def by (blast intro: marshal_extends)
  from marshal_entries_extends [OF this entry(4)] show ?thesis .
next
  case (held name)
  then show ?thesis by simp
next
  case (target ptr t)
  then show ?thesis by (simp add: extends_reserve')
next
  case (shared_elem a vs1 vs2 acc t)
  have "rec_extends (marshal k' h)" unfolding rec_extends_def by (blast intro: marshal_extends)
  from marshal_elems_extends [OF this shared_elem(4)] show ?thesis .
next
  case (shared_entry a es1 k es2 kt out et)
  have "rec_extends (marshal k' h)" unfolding rec_extends_def by (blast intro: marshal_extends)
  from marshal_entries_extends [OF this shared_entry(5)] show ?thesis .
qed

lemma bind_throw_cong:
  assumes "bind r f = throw e" and "\<And>a. r = ret a \<Longrightarrow> f a = throw e \<Longrightarrow> g a = throw e"
  shows "bind r g = throw e"
  using assms by (cases r rule: result_cases) simp_all

lemma marshal_seq_throw_init:
  "marshal_seq rec m vs init = throw e \<Longrightarrow> marshal_seq rec m vs init' = throw e"
  unfolding marshal_seq_def
  by (erule bind_throw_cong) (auto split: option.splits)

lemma marshal_body_throw_init_inline:
  assumes a: "marshal_body rec h m v init = throw e"
    and inl: "inline v"
  shows "marshal_body rec h m v init' = throw e"
proof (cases v)
  case (VBasic b s)
  with a show ?thesis by simp
next
  case (VUnsup u)
  with a show ?thesis by simp
next
  case (VStruct n fs)
  from a show ?thesis unfolding VStruct marshal_body.simps
    by (rule bind_throw_cong) auto
next
  case (VArray t vs)
  with a have "marshal_seq rec m vs init = throw e" by simp
  then have "marshal_seq rec m vs init' = throw e" by (rule marshal_seq_throw_init)
  with VArray show ?thesis by simp
next
  case (VSlice t xs)
  show ?thesis
  proof (cases xs)
    case None
    with a VSlice show ?thesis by simp
  next
    case (Some vs)
    with a VSlice have "marshal_seq rec m vs init = throw e" by simp
    then have "marshal_seq rec m vs init' = throw e" by (rule marshal_seq_throw_init)
    with VSlice Some show ?thesis by simp
  qed
next
  case (VMap kt et xs)
  show ?thesis
  proof (cases xs)
    case None
    with a VMap show ?thesis by simp
  next
    case (Some es)
    show ?thesis
    proof (cases "isMapKeyTypeSupported kt")
      case False
      with a VMap Some show ?thesis by simp
    next
      case True
      from a have "bind (marshal_entries rec m es []) (\<lambda>(marshaled, m').
          ret ((Some (VMap kt TInterface (Some marshaled)), True),
               append_init init (Some (VMap kt TInterface (Some marshaled))) m')) = throw e"
        by (simp add: VMap Some True)
      then have "bind (marshal_entries rec m es []) (\<lambda>(marshaled, m').
          ret ((Some (VMap kt TInterface (Some marshaled)), True),
               append_init init' (Some (VMap kt TInterface (Some marshaled))) m')) = throw e"
        by (rule bind_throw_cong) auto
      then show ?thesis by (simp add: VMap Some True)
    qed
  qed
next
  case (VIface x)
  show ?thesis
  proof (cases x)
    case None
    with a VIface show ?thesis by simp
  next
    case (Some c)
    show ?thesis
    proof (cases "typeNames (types m) (TypeOf c)")
      case None
      with a VIface Some show ?thesis by simp
    next
      case (Some name)
      from a have "bind (rec m c False) (\<lambda>((x, okay), m').
            if \<not> okay then throw (GoPanic ''failed to marshal registered type'')
            else ret ((Some (StringMap [(StringKey name, VIface x)]), True),
                      append_init init (Some (StringMap [(StringKey name, VIface x)])) m'))
           = throw e"
        by (simp add: VIface \<open>x = Some c\<close> Some)
      then have "bind (rec m c False) (\<lambda>((x, okay), m').
            if \<not> okay then throw (GoPanic ''failed to marshal registered type'')
            else ret ((Some (StringMap [(StringKey name, VIface x)]), True),
                      append_init init' (Some (StringMap [(StringKey name, VIface x)])) m'))
           = throw e"
        by (rule bind_throw_cong) (auto split: if_splits)
      then show ?thesis by (simp add: VIface \<open>x = Some c\<close> Some)
    qed
  qed
next
  case (VPtr t p)
  with a show ?thesis by (cases p) simp_all
next
  case (VSliceAt t a)
  with inl show ?thesis by simp
next
  case (VMapAt kt et a)
  with inl show ?thesis by simp
qed

lemma marshal_body_throw_init:
  assumes a: "marshal_body rec h m v init = throw e"
  shows "marshal_body rec h m v init' = throw e"
proof (cases "inlined h v")
  case None
  with a show ?thesis
    by (simp add: marshal_body_inlined [of rec h m v init] marshal_body_inlined [of rec h m v init'])
next
  case (Some v')
  with a have "marshal_body rec h m v' init = throw e"
    by (simp add: marshal_body_inlined [of rec h m v init])
  from marshal_body_throw_init_inline [OF this inlined_inline [OF Some]] Some show ?thesis
    by (simp add: marshal_body_inlined [of rec h m v init'])
qed

lemma marshal_throw_init:
  assumes a: "marshal n h m v init = throw e"
  shows "marshal n h m v init' = throw e"
proof (cases n)
  case 0
  with a show ?thesis by simp
next
  case (Suc k)
  with a have "marshal_body (marshal k h) h m v init = throw e" by simp
  then have "marshal_body (marshal k h) h m v init' = throw e" by (rule marshal_body_throw_init)
  with Suc show ?thesis by simp
qed

lemma reaches_throw:
  assumes "rtranclp (calls h) (k, m, v) (k', m', v')" and "marshal k' h m' v' init' = throw e"
  shows "marshal k h m v init = throw e"
  using assms
proof (induction "(k, m, v)" arbitrary: k m v init rule: converse_rtranclp_induct)
  case base
  then show ?case by (rule marshal_throw_init)
next
  case (step z)
  obtain k1 m1 v1 where z: "z = (k1, m1, v1)" by (cases z)
  from step(3) [OF z step(4)] have "marshal k1 h m1 v1 False = throw e" .
  with step(1) show ?case unfolding z by (rule calls_throw)
qed

lemma reaches_extends:
  assumes "rtranclp (calls h) (k, m, v) (k', m', v')"
  shows "extends m m'"
  using assms
proof (induction "(k, m, v)" arbitrary: k m v rule: converse_rtranclp_induct)
  case base
  show ?case by simp
next
  case (step z)
  obtain k1 m1 v1 where z: "z = (k1, m1, v1)" by (cases z)
  from step(1) have "extends m m1" unfolding z by (rule calls_extends)
  then show ?case using step(3) [OF z] by (rule extends_trans)
qed

lemma Marshal_throw:
  assumes "rtranclp (calls h) (n, newMarshaler tys ign, rootval) (k, m, v)"
    and "KindOf rootval \<noteq> KStruct" and "marshal k h m v init = throw e"
  shows "Marshal n h (Some rootval) tys ign = throw e"
  using reaches_throw [OF assms(1,3), of True] assms(2) by (simp add: Marshal_def)

lemma reaches_types:
  "rtranclp (calls h) (n, newMarshaler tys ign, rootval) (k, m, v) \<Longrightarrow> types m = tys"
  by (drule reaches_extends) (simp add: extends_def newMarshaler_def)

section \<open>The root of Marshal\<close>

text \<open>
  C8. A struct passed to \<^verbatim>\<open>Marshal\<close> as the root is rejected before any traversal: whatever
  the memory, the registry, the mode and the fuel, the call returns the error
  "struct passed as value" and no list.
\<close>

theorem Marshal_rejects_struct:
  "KindOf v = KStruct \<Longrightarrow>
   Marshal n h (Some v) tys ignoreUnsupportedTypes = throw (PanError StructPassedAsValue)
   \<and> (\<forall>objs. Marshal n h (Some v) tys ignoreUnsupportedTypes \<noteq> ret objs)"
  by (simp add: Marshal_def)

theorem Marshal_rejects_struct_witness:
  "KindOf (VStruct ''Node'' [(''A'', True, VBasic KInt (SInt 1))]) = KStruct
   \<and> Marshal 5 [] (Some (VStruct ''Node'' [(''A'', True, VBasic KInt (SInt 1))])) NewTypes True
       = throw (PanError StructPassedAsValue)"
proof -
  have k: "KindOf (VStruct ''Node'' [(''A'', True, VBasic KInt (SInt 1))]) = KStruct"
    by (simp add: KindOf_def)
  show ?thesis using k Marshal_rejects_struct [OF k, of 5 "[]" NewTypes True] by simp
qed

section \<open>Interface values\<close>

text \<open>
  C4. Marshalling a non-nil interface value whose concrete type has no name in the
  registry raises the error "type not registered", whatever the state of the marshaler and
  so in strict and in lenient mode alike. When \<^verbatim>\<open>Marshal\<close>, in either mode, comes to such an
  interface value anywhere below its root \<open>rootval\<close>, \<^verbatim>\<open>Marshal\<close> itself returns that error
  and no list.

  When the type is registered under \<open>name\<close>, what the interface value marshals to depends on
  the held value. If the held value marshals to \<open>x\<close>, the interface value marshals to the map
  with the single entry \<open>name\<close> to \<open>x\<close>. If the held value is reported absent, which happens
  in lenient mode only, the call panics with "failed to marshal registered type", and so
  does \<^verbatim>\<open>Marshal\<close> when it comes to such an interface value: a registered type does not
  always give a map.
\<close>

theorem interface_encoding:
  "(typeNames (types m) (TypeOf v) = None \<longrightarrow>
      marshal (Suc n) h m (VIface (Some v)) init = throw (PanError (TypeNotRegistered (TypeOf v))))
   \<and> (rtranclp (calls h) (k, newMarshaler tys ign, rootval) (Suc n, m, VIface (Some v))
        \<and> KindOf rootval \<noteq> KStruct \<and> typeNames tys (TypeOf v) = None \<longrightarrow>
      Marshal k h (Some rootval) tys ign = throw (PanError (TypeNotRegistered (TypeOf v))))
   \<and> (typeNames (types m) (TypeOf v) = Some name \<and> marshal n h m v False = ret ((x, True), m') \<longrightarrow>
      marshal (Suc n) h m (VIface (Some v)) init =
        ret ((Some (StringMap [(StringKey name, VIface x)]), True),
             append_init init (Some (StringMap [(StringKey name, VIface x)])) m'))
   \<and> (typeNames (types m) (TypeOf v) = Some name \<and> marshal n h m v False = ret ((x, False), m') \<longrightarrow>
      \<not> strict m
      \<and> marshal (Suc n) h m (VIface (Some v)) init
          = throw (GoPanic ''failed to marshal registered type''))
   \<and> (rtranclp (calls h) (k, newMarshaler tys ign, rootval) (Suc n, m, VIface (Some v))
        \<and> KindOf rootval \<noteq> KStruct \<and> typeNames tys (TypeOf v) = Some name
        \<and> marshal n h m v False = ret ((x, False), m') \<longrightarrow>
      ign \<and> Marshal k h (Some rootval) tys ign
              = throw (GoPanic ''failed to marshal registered type''))"
proof (intro conjI impI)
  assume a: "rtranclp (calls h) (k, newMarshaler tys ign, rootval) (Suc n, m, VIface (Some v))
        \<and> KindOf rootval \<noteq> KStruct \<and> typeNames tys (TypeOf v) = None"
  then have r: "rtranclp (calls h) (k, newMarshaler tys ign, rootval) (Suc n, m, VIface (Some v))"
    and s: "KindOf rootval \<noteq> KStruct" by simp_all
  from a reaches_types [OF r] have
    "marshal (Suc n) h m (VIface (Some v)) False = throw (PanError (TypeNotRegistered (TypeOf v)))"
    by simp
  with r s show "Marshal k h (Some rootval) tys ign = throw (PanError (TypeNotRegistered (TypeOf v)))"
    by (rule Marshal_throw)
next
  assume a: "typeNames (types m) (TypeOf v) = Some name \<and> marshal n h m v False = ret ((x, False), m')"
  show "\<not> strict m"
  proof
    assume "strict m"
    with a have False by (blast dest: marshal_strict_ok)
    then show False .
  qed
  from a show "marshal (Suc n) h m (VIface (Some v)) init
          = throw (GoPanic ''failed to marshal registered type'')"
    by simp
next
  assume a: "rtranclp (calls h) (k, newMarshaler tys ign, rootval) (Suc n, m, VIface (Some v))
        \<and> KindOf rootval \<noteq> KStruct \<and> typeNames tys (TypeOf v) = Some name
        \<and> marshal n h m v False = ret ((x, False), m')"
  then have r: "rtranclp (calls h) (k, newMarshaler tys ign, rootval) (Suc n, m, VIface (Some v))"
    and s: "KindOf rootval \<noteq> KStruct" and p: "marshal n h m v False = ret ((x, False), m')"
    by simp_all
  from reaches_extends [OF r] have st: "strict m = (\<not> ign)"
    by (simp add: extends_def newMarshaler_def)
  show ign
  proof (rule ccontr)
    assume "\<not> ign"
    with st have "strict m" by simp
    from marshal_strict_ok [OF this p] show False .
  qed
  from a reaches_types [OF r] have
    "marshal (Suc n) h m (VIface (Some v)) False
       = throw (GoPanic ''failed to marshal registered type'')"
    by simp
  with r s show "Marshal k h (Some rootval) tys ign
              = throw (GoPanic ''failed to marshal registered type'')"
    by (rule Marshal_throw)
qed simp_all

text \<open>The witness has a struct with one interface field, \<^verbatim>\<open>Box{Held any}\<close>, behind the root
  pointer. The field holds the \<^verbatim>\<open>int\<close> 7, with \<^verbatim>\<open>int\<close> unregistered and then registered as
  \<open>num\<close>, and then a \<^verbatim>\<open>[]chan int\<close> with one channel, its type registered as \<open>chans\<close>.\<close>

theorem interface_encoding_witness:
  "typeNames (types (newMarshaler NewTypes True)) (TypeOf (VBasic KInt (SInt 7))) = None
   \<and> marshal (Suc 0) [] (newMarshaler NewTypes True) (VIface (Some (VBasic KInt (SInt 7)))) False
       = throw (PanError (TypeNotRegistered (TBasic KInt)))
   \<and> KindOf (VPtr (TNamed ''Box'') (Some 0)) \<noteq> KStruct
   \<and> Marshal (Suc (Suc (Suc 0)))
        [VStruct ''Box'' [(''Held'', True, VIface (Some (VBasic KInt (SInt 7))))]]
        (Some (VPtr (TNamed ''Box'') (Some 0))) NewTypes True
       = throw (PanError (TypeNotRegistered (TBasic KInt)))
   \<and> typeNames (types (newMarshaler (fst (register NewTypes ''num'' (TBasic KInt))) False))
         (TypeOf (VBasic KInt (SInt 7))) = Some ''num''
   \<and> marshal (Suc 0) [] (newMarshaler (fst (register NewTypes ''num'' (TBasic KInt))) False)
         (VBasic KInt (SInt 7)) False
       = ret ((Some (VBasic KInt (SInt 7)), True),
              newMarshaler (fst (register NewTypes ''num'' (TBasic KInt))) False)
   \<and> marshal (Suc (Suc 0)) [] (newMarshaler (fst (register NewTypes ''num'' (TBasic KInt))) False)
         (VIface (Some (VBasic KInt (SInt 7)))) False
       = ret ((Some (StringMap [(StringKey ''num'', VIface (Some (VBasic KInt (SInt 7))))]), True),
              newMarshaler (fst (register NewTypes ''num'' (TBasic KInt))) False)
   \<and> typeNames (fst (register NewTypes ''chans'' (TSlice (TUnsup KChan))))
         (TypeOf (VSlice (TUnsup KChan) (Some [VUnsup KChan]))) = Some ''chans''
   \<and> marshal (Suc (Suc 0)) []
         (newMarshaler (fst (register NewTypes ''chans'' (TSlice (TUnsup KChan)))) True)
         (VSlice (TUnsup KChan) (Some [VUnsup KChan])) False
       = ret ((None, False), newMarshaler (fst (register NewTypes ''chans'' (TSlice (TUnsup KChan)))) True)
   \<and> marshal (Suc (Suc (Suc 0))) []
         (newMarshaler (fst (register NewTypes ''chans'' (TSlice (TUnsup KChan)))) True)
         (VIface (Some (VSlice (TUnsup KChan) (Some [VUnsup KChan])))) False
       = throw (GoPanic ''failed to marshal registered type'')
   \<and> Marshal (Suc (Suc (Suc (Suc (Suc 0)))))
        [VStruct ''Box'' [(''Held'', True, VIface (Some (VSlice (TUnsup KChan) (Some [VUnsup KChan]))))]]
        (Some (VPtr (TNamed ''Box'') (Some 0)))
        (fst (register NewTypes ''chans'' (TSlice (TUnsup KChan)))) True
       = throw (GoPanic ''failed to marshal registered type'')"
proof -
  let ?v = "VBasic KInt (SInt 7)"
  let ?box = "VStruct ''Box'' ([] @ (''Held'', True, VIface (Some ?v)) # [])"
  let ?h = "[?box]"
  let ?rootval = "VPtr (TNamed ''Box'') (Some 0)"
  let ?m0 = "newMarshaler NewTypes True"
  let ?m1 = "newMarshaler (fst (register NewTypes ''num'' (TBasic KInt))) False"
  let ?tys = "fst (register NewTypes ''chans'' (TSlice (TUnsup KChan)))"
  let ?c = "VSlice (TUnsup KChan) (Some [VUnsup KChan])"
  let ?cbox = "VStruct ''Box'' ([] @ (''Held'', True, VIface (Some ?c)) # [])"
  let ?m2 = "newMarshaler ?tys True"
  have kind: "KindOf ?rootval \<noteq> KStruct" by (simp add: KindOf_def)
  have none: "typeNames NewTypes (TypeOf ?v) = None" by (simp add: NewTypes_def)
  have "calls ?h (Suc (Suc (Suc 0)), ?m0, ?rootval) (Suc (Suc 0), reserve ?m0 0, ?h ! 0)"
    by (rule calls.target) (simp_all add: newMarshaler_def)
  moreover have "calls ?h (Suc (Suc 0), reserve ?m0 0, ?box) (Suc 0, reserve ?m0 0, VIface (Some ?v))"
    by (rule calls.field) simp
  ultimately have reach:
    "rtranclp (calls ?h) (Suc (Suc (Suc 0)), ?m0, ?rootval) (Suc 0, reserve ?m0 0, VIface (Some ?v))"
    by simp
  note top = interface_encoding [where h = "?h" and k = "Suc (Suc (Suc 0))" and tys = NewTypes
      and ign = True and rootval = "?rootval" and n = 0 and m = "reserve ?m0 0" and v = "?v",
      THEN conjunct2, THEN conjunct1]
  from top reach kind none have 1: "Marshal (Suc (Suc (Suc 0))) ?h (Some ?rootval) NewTypes True
       = throw (PanError (TypeNotRegistered (TBasic KInt)))"
    by simp
  note loc = interface_encoding [where m = "?m0" and v = "?v" and n = 0 and h = "[]"
      and init = False, THEN conjunct1]
  note enc = interface_encoding [where m = "?m1" and v = "?v" and name = "''num''"
      and n = "Suc 0" and h = "[]" and x = "Some ?v" and m' = "?m1" and init = False,
      THEN conjunct2, THEN conjunct2, THEN conjunct1]
  have 2: "typeNames (types ?m0) (TypeOf ?v) = None" by (simp add: newMarshaler_def NewTypes_def)
  have 3: "typeNames (types ?m1) (TypeOf ?v) = Some ''num''"
    by (simp add: newMarshaler_def NewTypes_def register_def)
  have 4: "marshal (Suc 0) [] ?m1 ?v False = ret ((Some ?v, True), ?m1)"
    by (simp add: append_init_def)
  from loc 2 have 5: "marshal (Suc 0) [] ?m0 (VIface (Some ?v)) False
       = throw (PanError (TypeNotRegistered (TBasic KInt)))" by simp
  from enc 3 4 have 6: "marshal (Suc (Suc 0)) [] ?m1 (VIface (Some ?v)) False
       = ret ((Some (StringMap [(StringKey ''num'', VIface (Some ?v))]), True), ?m1)"
    by (simp add: append_init_def)
  have 7: "typeNames ?tys (TypeOf ?c) = Some ''chans''"
    by (simp add: NewTypes_def register_def)
  then have r7a: "typeNames (types ?m2) (TypeOf ?c) = Some ''chans''"
    by (simp add: newMarshaler_def)
  have 8: "marshal (Suc (Suc 0)) [] ?m2 ?c False = ret ((None, False), ?m2)"
    by (simp add: marshal_seq_def newMarshaler_def)
  note absent = interface_encoding [where m = "?m2" and v = "?c" and name = "''chans''"
      and n = "Suc (Suc 0)" and h = "[]" and x = None and m' = "?m2" and init = False,
      THEN conjunct2, THEN conjunct2, THEN conjunct2, THEN conjunct1]
  from absent r7a 8 have 9: "marshal (Suc (Suc (Suc 0))) [] ?m2 (VIface (Some ?c)) False
       = throw (GoPanic ''failed to marshal registered type'')"
    by blast
  have r0: "reserve ?m2 0 = ?m2\<lparr> refs := [0 \<mapsto> 0], objects := [None] \<rparr>"
    by (simp add: reserve_def newMarshaler_def)
  have r8a: "marshal (Suc (Suc 0)) [?cbox] (reserve ?m2 0) ?c False = ret ((None, False), reserve ?m2 0)"
    by (simp add: marshal_seq_def newMarshaler_def reserve_def)
  have r7b: "typeNames (types (reserve ?m2 0)) (TypeOf ?c) = Some ''chans''"
    using 7 by (simp add: newMarshaler_def reserve_def)
  have "calls [?cbox] (Suc (Suc (Suc (Suc (Suc 0)))), ?m2, ?rootval)
          (Suc (Suc (Suc (Suc 0))), reserve ?m2 0, [?cbox] ! 0)"
    by (rule calls.target) (simp_all add: newMarshaler_def)
  moreover have "calls [?cbox] (Suc (Suc (Suc (Suc 0))), reserve ?m2 0, ?cbox)
          (Suc (Suc (Suc 0)), reserve ?m2 0, VIface (Some ?c))"
    by (rule calls.field) simp
  ultimately have reach2:
    "rtranclp (calls [?cbox]) (Suc (Suc (Suc (Suc (Suc 0)))), ?m2, ?rootval)
       (Suc (Suc (Suc 0)), reserve ?m2 0, VIface (Some ?c))"
    by simp
  note top2 = interface_encoding [where h = "[?cbox]" and k = "Suc (Suc (Suc (Suc (Suc 0))))"
      and tys = "?tys" and ign = True and rootval = "?rootval" and n = "Suc (Suc 0)"
      and m = "reserve ?m2 0" and v = "?c" and name = "''chans''" and x = None
      and m' = "reserve ?m2 0",
      THEN conjunct2, THEN conjunct2, THEN conjunct2, THEN conjunct2]
  from top2 reach2 kind 7 r8a have 10:
    "Marshal (Suc (Suc (Suc (Suc (Suc 0))))) [?cbox] (Some ?rootval) ?tys True
       = throw (GoPanic ''failed to marshal registered type'')"
    by blast
  from kind 1 2 3 4 5 6 7 8 9 10 show ?thesis by simp
qed

text \<open>
  The claim that a registered type gives the map fails at this input: in lenient mode, a
  \<^verbatim>\<open>Box\<close> holding a \<^verbatim>\<open>[]chan int\<close> whose type is registered (registration looks at the kind of
  the type itself, which is a slice) does not marshal to a map with the entry \<open>chans\<close>;
  \<^verbatim>\<open>Marshal\<close> panics.
\<close>

theorem registered_type_without_map:
  "register NewTypes ''chans'' (TSlice (TUnsup KChan))
     = (\<lparr> typeNames = [TSlice (TUnsup KChan) \<mapsto> ''chans''],
          nameTypes = [''chans'' \<mapsto> TSlice (TUnsup KChan)] \<rparr>, None)
   \<and> Marshal (Suc (Suc (Suc (Suc (Suc 0)))))
        [VStruct ''Box'' [(''Held'', True, VIface (Some (VSlice (TUnsup KChan) (Some [VUnsup KChan]))))]]
        (Some (VPtr (TNamed ''Box'') (Some 0)))
        (fst (register NewTypes ''chans'' (TSlice (TUnsup KChan)))) True
       = throw (GoPanic ''failed to marshal registered type'')"
  by (simp add: register_def NewTypes_def Marshal_def KindOf_def newMarshaler_def marshal_seq_def)

section \<open>Map values\<close>

text \<open>
  C5. When a map with a supported key type and distinct keys is marshalled, be it written
  with its entries or held by reference, take any of
  its entries \<open>(k, v)\<close> and the result \<open>(x, okay)\<close> of marshalling \<open>v\<close> in the state the
  entries before it have left. If the value was reported absent (\<open>okay\<close> is false) the
  marshalled map has no entry for \<open>k\<close>; if it was marshalled, the marshalled map has the
  entry \<open>k\<close> to \<open>x\<close>, and so an explicit nil entry when \<open>x\<close> is nil.
\<close>

theorem map_value_asymmetry:
  assumes key: "isMapKeyTypeSupported kt"
    and ents: "entries_of h mp = Some (kt, et, es1 @ (k, v) # es2)"
    and dist: "distinct (map fst (es1 @ (k, v) # es2))"
    and before: "marshal_entries (marshal n h) m es1 [] = ret (out1, m1)"
    and cur: "marshal n h m1 v False = ret ((x, okay), m2)"
    and whole: "marshal (Suc n) h m mp init = ret ((r, okay'), m')"
  shows "\<exists>out. r = Some (VMap kt TInterface (Some out)) \<and> okay' \<and>
           map_of out k = (if okay then Some (VIface x) else None)"
proof -
  from whole have "marshal_map (marshal n h) m kt et (es1 @ (k, v) # es2) init = ret ((r, okay'), m')"
    by (simp add: marshal_body_entries [OF ents])
  with key obtain out m3 where
    loop: "marshal_entries (marshal n h) m (es1 @ (k, v) # es2) [] = ret (out, m3)" and
    r: "r = Some (VMap kt TInterface (Some out))" "okay'"
    by (auto simp: marshal_map_def bind_eq_ret)
  from loop before cur have rest:
    "marshal_entries (marshal n h) m2 es2
       (if okay then AList.update k (VIface x) out1 else out1) = ret (out, m3)"
    by (simp add: marshal_entries_append)
  from dist have k1: "k \<notin> fst ` set es1" and k2: "k \<notin> fst ` set es2" by auto
  have "map_of out1 k = None"
    using marshal_entries_other_key [OF before k1] by simp
  with marshal_entries_other_key [OF rest k2] have
    "map_of out k = (if okay then Some (VIface x) else None)"
    by (simp add: update_conv')
  with r show ?thesis by simp
qed

text \<open>The witness is the map \<^verbatim>\<open>map[string]*func(){"f": &f, "p": nil}\<close> in lenient mode: the
  pointer to a function value is reported absent and \<open>f\<close> has no entry, the nil pointer
  marshals to nil and \<open>p\<close> has the entry nil.\<close>

theorem map_value_asymmetry_witness:
  "isMapKeyTypeSupported (TBasic KString)
   \<and> entries_of [VUnsup KFunc]
        (VMap (TBasic KString) (TPointer (TUnsup KFunc))
           (Some ([(StringKey ''f'', VPtr (TUnsup KFunc) (Some 0))] @
                  (StringKey ''p'', VPtr (TUnsup KFunc) None) # [])))
       = Some (TBasic KString, TPointer (TUnsup KFunc),
               [(StringKey ''f'', VPtr (TUnsup KFunc) (Some 0))] @
               (StringKey ''p'', VPtr (TUnsup KFunc) None) # [])
   \<and> distinct (map fst ([(StringKey ''f'', VPtr (TUnsup KFunc) (Some 0))] @
        (StringKey ''p'', VPtr (TUnsup KFunc) None) # []))
   \<and> marshal (Suc (Suc 0)) [VUnsup KFunc] (newMarshaler NewTypes True)
        (VPtr (TUnsup KFunc) (Some 0)) False
       = ret ((None, False), (reserve (newMarshaler NewTypes True) 0)\<lparr> objects := [] \<rparr>)
   \<and> marshal (Suc (Suc 0)) [VUnsup KFunc] ((reserve (newMarshaler NewTypes True) 0)\<lparr> objects := [] \<rparr>)
        (VPtr (TUnsup KFunc) None) False
       = ret ((None, True), (reserve (newMarshaler NewTypes True) 0)\<lparr> objects := [] \<rparr>)
   \<and> marshal (Suc (Suc (Suc 0))) [VUnsup KFunc] (newMarshaler NewTypes True)
        (VMap (TBasic KString) (TPointer (TUnsup KFunc))
           (Some ([(StringKey ''f'', VPtr (TUnsup KFunc) (Some 0))] @
                  (StringKey ''p'', VPtr (TUnsup KFunc) None) # [])))
        False
       = ret ((Some (VMap (TBasic KString) TInterface (Some [(StringKey ''p'', VIface None)])), True),
              (reserve (newMarshaler NewTypes True) 0)\<lparr> objects := [] \<rparr>)
   \<and> (\<exists>out. Some (VMap (TBasic KString) TInterface (Some [(StringKey ''p'', VIface None)]))
               = Some (VMap (TBasic KString) TInterface (Some out))
         \<and> map_of out (StringKey ''f'') = None)
   \<and> (\<exists>out. Some (VMap (TBasic KString) TInterface (Some [(StringKey ''p'', VIface None)]))
               = Some (VMap (TBasic KString) TInterface (Some out))
         \<and> map_of out (StringKey ''p'') = Some (VIface None))"
proof -
  let ?h = "[VUnsup KFunc]"
  let ?m = "newMarshaler NewTypes True"
  let ?m1 = "(reserve ?m 0)\<lparr> objects := [] \<rparr>"
  let ?f = "(StringKey ''f'', VPtr (TUnsup KFunc) (Some 0))"
  let ?p = "(StringKey ''p'', VPtr (TUnsup KFunc) None)"
  let ?r = "Some (VMap (TBasic KString) TInterface (Some [(StringKey ''p'', VIface None)]))"
  have key: "isMapKeyTypeSupported (TBasic KString)"
    by (simp add: isMapKeyTypeSupported_def)
  have dist: "distinct (map fst ([?f] @ ?p # []))"
    by (simp add: StringKey_def)
  have dist0: "distinct (map fst ([] @ ?f # [?p]))"
    by (simp add: StringKey_def)
  have f: "marshal (Suc (Suc 0)) ?h ?m (VPtr (TUnsup KFunc) (Some 0)) False = ret ((None, False), ?m1)"
    by (simp add: newMarshaler_def reserve_def)
  have p: "marshal (Suc (Suc 0)) ?h ?m1 (VPtr (TUnsup KFunc) None) False = ret ((None, True), ?m1)"
    by (simp add: append_init_def)
  have before0: "marshal_entries (marshal (Suc (Suc 0)) ?h) ?m [] [] = ret ([], ?m)"
    by simp
  have before1: "marshal_entries (marshal (Suc (Suc 0)) ?h) ?m [?f] [] = ret ([], ?m1)"
    using f by simp
  have whole: "marshal (Suc (Suc (Suc 0))) ?h ?m
        (VMap (TBasic KString) (TPointer (TUnsup KFunc)) (Some ([?f] @ ?p # []))) False
      = ret ((?r, True), ?m1)"
    using f p key by (simp add: append_init_def)
  have whole0: "marshal (Suc (Suc (Suc 0))) ?h ?m
        (VMap (TBasic KString) (TPointer (TUnsup KFunc)) (Some ([] @ ?f # [?p]))) False
      = ret ((?r, True), ?m1)"
    using whole by simp
  have ents: "entries_of ?h (VMap (TBasic KString) (TPointer (TUnsup KFunc)) (Some ([?f] @ ?p # [])))
      = Some (TBasic KString, TPointer (TUnsup KFunc), [?f] @ ?p # [])"
    by simp
  have ents0: "entries_of ?h (VMap (TBasic KString) (TPointer (TUnsup KFunc)) (Some ([] @ ?f # [?p])))
      = Some (TBasic KString, TPointer (TUnsup KFunc), [] @ ?f # [?p])"
    by simp
  from map_value_asymmetry [OF key ents0 dist0 before0 f whole0]
  have 1: "\<exists>out. ?r = Some (VMap (TBasic KString) TInterface (Some out))
         \<and> map_of out (StringKey ''f'') = None"
    by auto
  from map_value_asymmetry [OF key ents dist before1 p whole]
  have 2: "\<exists>out. ?r = Some (VMap (TBasic KString) TInterface (Some out))
         \<and> map_of out (StringKey ''p'') = Some (VIface None)"
    by auto
  from key ents dist f p whole 1 2 show ?thesis by blast
qed

section \<open>Sequence elements\<close>




section \<open>Slots of pointers\<close>




lemma self_containing_slice_is_stored_in_itself:
  "(0, 0) \<in> stored_in [VArray TInterface [VIface (Some (VSliceAt TInterface 0))]]
   \<and> \<not> acyclic (stored_in [VArray TInterface [VIface (Some (VSliceAt TInterface 0))]])"
proof -
  have "(0, 0) \<in> stored_in [VArray TInterface [VIface (Some (VSliceAt TInterface 0))]]"
    by (simp add: stored_in_def)
  then show ?thesis by (auto simp: acyclic_def)
qed

text \<open>A memory with a cycle through a pointer and a slice held by two fields is acyclic in
  that sense, and is marshalled: the slice is written out at each of the two fields.\<close>

lemma shared_slice_is_marshalled_twice:
  "acyclic (stored_in
      [VArray (TBasic KInt) [VBasic KInt (SInt 1), VBasic KInt (SInt 2)],
       VStruct ''Pair'' [(''A'', True, VSliceAt (TBasic KInt) 0),
                         (''B'', True, VSliceAt (TBasic KInt) 0),
                         (''Self'', True, VPtr (TNamed ''Pair'') (Some 1))]])
   \<and> Marshal (Suc (Suc (Suc (Suc (Suc 0)))))
        [VArray (TBasic KInt) [VBasic KInt (SInt 1), VBasic KInt (SInt 2)],
         VStruct ''Pair'' [(''A'', True, VSliceAt (TBasic KInt) 0),
                           (''B'', True, VSliceAt (TBasic KInt) 0),
                           (''Self'', True, VPtr (TNamed ''Pair'') (Some 1))]]
        (Some (VPtr (TNamed ''Pair'') (Some 1))) NewTypes False
       = ret [Some (StringMap
               [(StringKey ''A'', VIface (Some (AnySlice [VIface (Some (VBasic KInt (SInt 1))),
                                                          VIface (Some (VBasic KInt (SInt 2)))]))),
                (StringKey ''B'', VIface (Some (AnySlice [VIface (Some (VBasic KInt (SInt 1))),
                                                          VIface (Some (VBasic KInt (SInt 2)))]))),
                (StringKey ''Self'', VIface (Some (Index 0)))])]"
proof -
  let ?h = "[VArray (TBasic KInt) [VBasic KInt (SInt 1), VBasic KInt (SInt 2)],
             VStruct ''Pair'' [(''A'', True, VSliceAt (TBasic KInt) 0),
                               (''B'', True, VSliceAt (TBasic KInt) 0),
                               (''Self'', True, VPtr (TNamed ''Pair'') (Some 1))]]"
  have "ranked ?h (\<lambda>a. if a = 1 then 1 else 0)"
    by (simp add: ranked_def less_Suc_eq_0_disj)
  then have "acyclic (stored_in ?h)" by (rule ranked_acyclic)
  moreover have "Marshal (Suc (Suc (Suc (Suc (Suc 0))))) ?h
        (Some (VPtr (TNamed ''Pair'') (Some 1))) NewTypes False
       = ret [Some (StringMap
               [(StringKey ''A'', VIface (Some (AnySlice [VIface (Some (VBasic KInt (SInt 1))),
                                                          VIface (Some (VBasic KInt (SInt 2)))]))),
                (StringKey ''B'', VIface (Some (AnySlice [VIface (Some (VBasic KInt (SInt 1))),
                                                          VIface (Some (VBasic KInt (SInt 2)))]))),
                (StringKey ''Self'', VIface (Some (Index 0)))])]"
    by (simp add: Marshal_def KindOf_def newMarshaler_def
        marshal_seq_def append_init_def cell_elems_def StringKey_def)
  ultimately show ?thesis by simp
qed

text \<open>
  C10. In the pointer case of \<^verbatim>\<open>marshal\<close>, let the address have no slot yet and let the
  target, marshalled from the state with the slot reserved, be reported absent (which
  happens in lenient mode only). Then the pointer is reported absent, the list is cut back
  to what it was before the reservation, and the address keeps its entry in \<open>refs\<close>: the
  index of the removed slot, which is the length of the list. A later encounter of the
  same address, in that state, marshals to that index.
\<close>

theorem retired_slot_stays_in_refs:
  assumes unseen: "refs m ptr = None" and valid: "ptr < length h"
    and target: "marshal n h (reserve m ptr) (h ! ptr) False = ret ((x, False), m2)"
  shows "marshal (Suc n) h m (VPtr t (Some ptr)) init
           = ret ((None, False), m2\<lparr> objects := objects m \<rparr>)
         \<and> \<not> strict m
         \<and> refs (m2\<lparr> objects := objects m \<rparr>) ptr = Some (length (objects m))
         \<and> marshal (Suc k) h (m2\<lparr> objects := objects m \<rparr>) (VPtr t' (Some ptr)) init'
             = ret ((Some (Index (length (objects m))), True), m2\<lparr> objects := objects m \<rparr>)"
proof -
  have e: "extends m m2"
    using extends_reserve' [OF unseen] marshal_extends [OF target] by (rule extends_trans)
  then have take: "take (length (objects m)) (objects m2) = objects m"
    by (simp add: extends_def)
  have 1: "marshal (Suc n) h m (VPtr t (Some ptr)) init
           = ret ((None, False), m2\<lparr> objects := objects m \<rparr>)"
    by (simp only: marshal_pointer_new [OF unseen valid] target) (simp add: complete_def take)
  have 2: "\<not> strict m"
  proof
    assume "strict m"
    then have "strict (reserve m ptr)" by (simp add: reserve_def)
    from marshal_strict_ok [OF this target] show False .
  qed
  from marshal_extends [OF target] have "refs (reserve m ptr) \<subseteq>\<^sub>m refs m2"
    by (simp add: extends_def)
  then have 3: "refs (m2\<lparr> objects := objects m \<rparr>) ptr = Some (length (objects m))"
    by (auto simp: map_le_def reserve_def dom_def)
  from 3 have 4: "marshal (Suc k) h (m2\<lparr> objects := objects m \<rparr>) (VPtr t' (Some ptr)) init'
             = ret ((Some (Index (length (objects m))), True), m2\<lparr> objects := objects m \<rparr>)"
    by (rule marshal_pointer_seen)
  from 1 2 3 4 show ?thesis by blast
qed

text \<open>The witness is a pointer to a function value, met twice in lenient mode.\<close>

theorem retired_slot_stays_in_refs_witness:
  "refs (newMarshaler NewTypes True) 0 = None \<and> (0::nat) < length [VUnsup KFunc]
   \<and> marshal (Suc 0) [VUnsup KFunc] (reserve (newMarshaler NewTypes True) 0) ([VUnsup KFunc] ! 0) False
       = ret ((None, False), reserve (newMarshaler NewTypes True) 0)
   \<and> marshal (Suc (Suc 0)) [VUnsup KFunc] (newMarshaler NewTypes True)
        (VPtr (TUnsup KFunc) (Some 0)) False
       = ret ((None, False), (reserve (newMarshaler NewTypes True) 0)\<lparr> objects := [] \<rparr>)
   \<and> refs ((reserve (newMarshaler NewTypes True) 0)\<lparr> objects := [] \<rparr>) 0 = Some 0
   \<and> objects ((reserve (newMarshaler NewTypes True) 0)\<lparr> objects := [] \<rparr>) = []
   \<and> marshal (Suc 0) [VUnsup KFunc] ((reserve (newMarshaler NewTypes True) 0)\<lparr> objects := [] \<rparr>)
        (VPtr (TUnsup KFunc) (Some 0)) False
       = ret ((Some (Index 0), True), (reserve (newMarshaler NewTypes True) 0)\<lparr> objects := [] \<rparr>)"
proof -
  let ?h = "[VUnsup KFunc]"
  let ?m = "newMarshaler NewTypes True"
  have unseen: "refs ?m 0 = None" by (simp add: newMarshaler_def)
  have valid: "(0::nat) < length ?h" by simp
  have target: "marshal (Suc 0) ?h (reserve ?m 0) (?h ! 0) False = ret ((None, False), reserve ?m 0)"
    by (simp add: reserve_def newMarshaler_def)
  have objs: "objects ?m = []" by (simp add: newMarshaler_def)
  note r = retired_slot_stays_in_refs [OF unseen valid target,
      of "TUnsup KFunc" False 0 "TUnsup KFunc" False, unfolded objs list.size(3)]
  have "objects ((reserve ?m 0)\<lparr> objects := [] \<rparr>) = []" by simp
  with r unseen valid target show ?thesis by blast
qed

section \<open>What a call of unmarshal leaves of the state\<close>

lemma uextends_refl [simp]: "uextends u u"
  by (simp add: uextends_def)














section \<open>The memo array of Unmarshal\<close>






section \<open>The index a reference stands for\<close>

text \<open>
  The \<^verbatim>\<open>switch src.Kind()\<close> of the pointer case: an unsigned integer is its own index, a
  signed integer is its index unless it is negative, a float in the range of \<^verbatim>\<open>uint64\<close> is
  its index when it has no fraction, a string is what \<^verbatim>\<open>ParseUint\<close> makes of it; a negative
  integer, any other float, and the zero Value panic, and a string that does not parse is
  an error. An index that is not below the length of the list panics.
\<close>

lemma reference_index_decoding:
  "(b \<in> {KUint, KUint8, KUint16, KUint32, KUint64, KUintptr} \<longrightarrow>
      ref_index E (Some (VBasic b (SUint n))) = ret n)
   \<and> (b \<in> {KInt, KInt8, KInt16, KInt32, KInt64} \<longrightarrow>
      ref_index E (Some (VBasic b (SInt j))) =
        (if j < 0 then throw (GoPanic ''panic(src)'') else ret (nat j)))
   \<and> (b \<in> {KFloat32, KFloat64} \<and> 0 \<le> q \<and> q < 2 ^ 64 \<longrightarrow>
      ref_index E (Some (VBasic b (SFloat (Finite q)))) =
        (if q = of_int \<lfloor>q\<rfloor> then ret (nat \<lfloor>q\<rfloor>) else throw (GoPanic ''panic(src)'')))
   \<and> (b \<in> {KFloat32, KFloat64} \<and>
        (f = NaN \<or> f = PosInf \<or> f = NegInf \<or> (\<exists>q. f = Finite q \<and> (q < 0 \<or> 2 ^ 64 \<le> q))) \<longrightarrow>
      ref_index E (Some (VBasic b (SFloat f))) = throw (GoPanic ''panic(src)''))
   \<and> ref_index E (Some (VBasic KString (SString s))) =
        (case ParseUint E s of None \<Rightarrow> throw (PanError (ParseUintFailed s)) | Some n \<Rightarrow> ret n)
   \<and> ref_index E (Some (VBasic KBool (SBool c))) = throw (GoPanic ''panic(src)'')
   \<and> ref_index E (Some (VStruct name fs)) = throw (GoPanic ''panic(src)'')
   \<and> ref_index E None = throw (GoPanic ''panic(src)'')
   \<and> (ref_index E src = ret i \<and> length (uobjects u) \<le> i \<longrightarrow>
        unmarshal (Suc k) E u src (TPointer t) old = throw (GoPanic ''panic(src)''))"
proof -
  have fl: "0 \<le> q \<Longrightarrow> q < 2 ^ 64 \<Longrightarrow>
      (float_neg (Finite q) \<or>
         float_neq (Finite q) (float_of_uint64 (uint64_of_float (Finite q))))
      = (q \<noteq> of_int \<lfloor>q\<rfloor>)" for q :: rat
    by (auto simp: float_neg_def float_neq_def float_of_uint64_def uint64_of_float_def)
  have big: "2 ^ 64 \<le> q \<Longrightarrow> float_neq (Finite q) (float_of_uint64 (uint64_of_float (Finite q)))"
    for q :: rat
    by (simp add: float_neq_def float_of_uint64_def uint64_of_float_def)
  show ?thesis
    by (auto simp: ref_index_def fl big float_neg_def float_neq_def float_of_uint64_def
        uint64_of_float_def)
qed

text \<open>
  C7. The claim holds for the integers, floats, strings and other kinds, and for an index
  beyond the list (see the lemma above), and fails for the explicit null. A null that
  reaches the pointer case is the zero Value (what \<^verbatim>\<open>Elem\<close> gives for a nil interface), whose
  kind is Invalid: the \<^verbatim>\<open>default\<close> branch panics. The branch \<^verbatim>\<open>case reflect.Interface\<close>, which
  is meant to handle it, is never entered. The input below is the list
  \<^verbatim>\<open>[{"P": null}]\<close> decoded into a struct with one pointer field \<open>P\<close>.
\<close>

theorem null_reference_panics:
  "unmarshal (Suc n) E u None (TPointer t) old = throw (GoPanic ''panic(src)'')
   \<and> Unmarshal (Suc (Suc 0)) NodeEnv [VStruct ''S'' [(''P'', True, VPtr (TBasic KInt) None)]]
        [Some (StringMap [(StringKey ''P'', VIface None)])]
        (Some (VPtr (TStruct ''S'' [(''P'', True, TPointer (TBasic KInt))]) (Some 0))) NewTypes
       = throw (GoPanic ''panic(src)'')"
  by (simp add: Unmarshal_def KindOf_def unmarshal_struct_def src_map_def
      StringMap_def StringKey_def struct_fields_def newUnmarshaler_def ref_index_def)

section \<open>Round trip\<close>

text \<open>
  C1. The round trip fails for a root that is not a pointer and holds pointers: the slots
  of the pointers are reserved first and the root is appended after them, while
  \<^verbatim>\<open>Unmarshal\<close> reads the root from slot 0. The input is the slice \<^verbatim>\<open>[]*int{&x}\<close> with
  \<open>x = 7\<close>: \<^verbatim>\<open>Marshal\<close> returns the list \<^verbatim>\<open>[7, [0]]\<close>, and \<^verbatim>\<open>Unmarshal\<close> of that list into a
  \<^verbatim>\<open>*[]*int\<close> panics on the source 7, which is no slice.
\<close>

theorem round_trip_fails_for_slice_of_pointers:
  "Marshal (Suc (Suc (Suc 0))) [VBasic KInt (SInt 7)]
     (Some (VSlice (TPointer (TBasic KInt)) (Some [VPtr (TBasic KInt) (Some 0)]))) NewTypes False
     = ret [Some (VBasic KInt (SInt 7)), Some (AnySlice [VIface (Some (Index 0))])]
   \<and> Unmarshal (Suc (Suc (Suc 0))) NodeEnv [VSlice (TPointer (TBasic KInt)) None]
        [Some (VBasic KInt (SInt 7)), Some (AnySlice [VIface (Some (Index 0))])]
        (Some (VPtr (TSlice (TPointer (TBasic KInt))) (Some 0))) NewTypes
       = throw (GoPanic ''panic(src)'')"
  by (simp add: Marshal_def KindOf_def newMarshaler_def marshal_seq_def append_init_def
      Unmarshal_def newUnmarshaler_def src_slice_def Let_def)

end
